theory Spec2Isabelle
  imports Main "HOL-Library.Word"
begin

section \<open>The f3fs shrinker (shrinker.c)\<close>

text \<open>
  The shrinker keeps a list of mounted file systems (\<open>f3fs_list\<close>), a spin lock for
  that list and a run counter. Each file system (\<open>struct f3fs_sb_info\<close>) carries the
  mutex that unmount holds, the number of the last scan that served it, and the counters
  of its three caches. The caches themselves (extent tree, NAT entries, free nids) are
  external: the shrinker calls \<open>f3fs_shrink_extent_tree\<close>, \<open>f3fs_try_to_free_nats\<close>
  and \<open>f3fs_try_to_free_nids\<close>, which are parameters of this model.
\<close>

subsection \<open>Data\<close>

type_synonym addr = nat
type_synonym uint = "32 word"
type_synonym ulong = "64 word"

text \<open>
  The counters read by the three \<open>__count_*\<close> functions. The structures are declared
  in f3fs.h, which is not among the sources at hand; the widths are those of the kernel:
  \<open>total_zombie_tree\<close> and \<open>total_ext_node\<close> are read with \<open>atomic_read\<close>, so they are
  \<open>atomic_t\<close> (a C \<open>int\<close>), and \<open>nat_cnt[]\<close> and \<open>nid_cnt[]\<close> are arrays of
  \<open>unsigned int\<close> in the node manager. \<open>long\<close> and \<open>unsigned long\<close> have 64 bits.
  \<open>internals\<close> stands for the rest of the caches (trees, entry lists), which the shrinker
  never reads.
\<close>

record 'c f3fs_caches =
  total_zombie_tree :: uint
  total_ext_node :: uint
  nat_cnt_RECLAIMABLE_NAT :: uint
  nid_cnt_FREE_NID :: uint
  internals :: 'c

record 'c f3fs_sb_info =
  sbi_umount_mutex :: bool         \<comment> \<open>\<open>True\<close>: the mutex is held\<close>
  sbi_shrinker_run_no :: uint
  caches :: "'c f3fs_caches"

text \<open>
  Every call of the code that another thread or a reader of the list could observe is
  logged, in the order of execution. A call into a cache records the number of objects
  requested and the number the cache returned.
\<close>

datatype action =
    Spin_lock
  | Spin_unlock
  | Mutex_trylock addr bool
  | Mutex_unlock addr
  | Shrink_extent_tree addr ulong ulong
  | Try_to_free_nats addr ulong ulong
  | Try_to_free_nids addr ulong ulong
  | List_move_tail addr
  | List_add_tail addr
  | List_del_init addr

record 'c shrinker =
  f3fs_list :: "addr list"           \<comment> \<open>the nodes linked from the list head, in order\<close>
  shrinker_run_no :: uint
  sbis :: "addr \<Rightarrow> 'c f3fs_sb_info"  \<comment> \<open>the store: the object at each address\<close>
  trace :: "action list"

text \<open>The external cache operations: the new state of the caches and the number freed.\<close>

record 'c cache_ops =
  f3fs_shrink_extent_tree :: "'c f3fs_caches \<Rightarrow> ulong \<Rightarrow> ulong \<times> 'c f3fs_caches"
  f3fs_try_to_free_nats :: "'c f3fs_caches \<Rightarrow> ulong \<Rightarrow> ulong \<times> 'c f3fs_caches"
  f3fs_try_to_free_nids :: "'c f3fs_caches \<Rightarrow> ulong \<Rightarrow> ulong \<times> 'c f3fs_caches"

subsection \<open>Counting\<close>

definition count_nat_entries :: "'c f3fs_sb_info \<Rightarrow> ulong" where
  "count_nat_entries sbi = ucast (nat_cnt_RECLAIMABLE_NAT (caches sbi))"

text \<open>
  \<open>MAX_FREE_NIDS\<close> is a macro of node.h, which is not among the sources at hand; in the
  kernel it is a multiple of \<open>PAGE_SIZE / sizeof(...)\<close> and so an \<open>unsigned long\<close>. It is
  a parameter here. The difference is computed in \<open>unsigned long\<close>, stored in a \<open>long\<close>
  and compared as a signed value.
\<close>

definition count_free_nids :: "ulong \<Rightarrow> 'c f3fs_sb_info \<Rightarrow> ulong" where
  "count_free_nids MAX_FREE_NIDS sbi =
     (let count = ucast (nid_cnt_FREE_NID (caches sbi)) - MAX_FREE_NIDS
      in if 0 <s count then count else 0)"

text \<open>The sum of two \<open>int\<close> values, converted to \<open>unsigned long\<close> with sign extension.\<close>

definition count_extent_cache :: "'c f3fs_sb_info \<Rightarrow> ulong" where
  "count_extent_cache sbi =
     scast (total_zombie_tree (caches sbi) + total_ext_node (caches sbi))"

subsection \<open>Primitive steps\<close>

definition log_action :: "action \<Rightarrow> 'c shrinker \<Rightarrow> 'c shrinker" where
  "log_action e st = st\<lparr>trace := trace st @ [e]\<rparr>"

definition spin_lock :: "'c shrinker \<Rightarrow> 'c shrinker" where
  "spin_lock st = log_action Spin_lock st"

definition spin_unlock :: "'c shrinker \<Rightarrow> 'c shrinker" where
  "spin_unlock st = log_action Spin_unlock st"

definition set_sbi :: "addr \<Rightarrow> 'c f3fs_sb_info \<Rightarrow> 'c shrinker \<Rightarrow> 'c shrinker" where
  "set_sbi a sbi st = st\<lparr>sbis := (sbis st)(a := sbi)\<rparr>"

text \<open>\<open>mutex_trylock\<close> never waits: it fails at once when the mutex is held.\<close>

definition mutex_trylock :: "addr \<Rightarrow> 'c shrinker \<Rightarrow> bool \<times> 'c shrinker" where
  "mutex_trylock a st =
     (if sbi_umount_mutex (sbis st a) then (False, log_action (Mutex_trylock a False) st)
      else (True, log_action (Mutex_trylock a True)
                    (set_sbi a ((sbis st a)\<lparr>sbi_umount_mutex := True\<rparr>) st)))"

definition mutex_unlock :: "addr \<Rightarrow> 'c shrinker \<Rightarrow> 'c shrinker" where
  "mutex_unlock a st =
     log_action (Mutex_unlock a) (set_sbi a ((sbis st a)\<lparr>sbi_umount_mutex := False\<rparr>) st)"

text \<open>A call into one of the caches of the file system at \<open>a\<close>.\<close>

definition cache_call ::
  "('c f3fs_caches \<Rightarrow> ulong \<Rightarrow> ulong \<times> 'c f3fs_caches) \<Rightarrow> (addr \<Rightarrow> ulong \<Rightarrow> ulong \<Rightarrow> action)
    \<Rightarrow> addr \<Rightarrow> ulong \<Rightarrow> 'c shrinker \<Rightarrow> ulong \<times> 'c shrinker" where
  "cache_call f ev a n st =
     (let r = f (caches (sbis st a)) n
      in (fst r, log_action (ev a n (fst r))
                   (set_sbi a ((sbis st a)\<lparr>caches := snd r\<rparr>) st)))"

text \<open>
  A node is linked into the list at most once, so unlinking it leaves no occurrence of
  its address.
\<close>

definition list_move_tail :: "addr \<Rightarrow> 'c shrinker \<Rightarrow> 'c shrinker" where
  "list_move_tail a st =
     log_action (List_move_tail a) (st\<lparr>f3fs_list := removeAll a (f3fs_list st) @ [a]\<rparr>)"

definition list_add_tail :: "addr \<Rightarrow> 'c shrinker \<Rightarrow> 'c shrinker" where
  "list_add_tail a st = log_action (List_add_tail a) (st\<lparr>f3fs_list := f3fs_list st @ [a]\<rparr>)"

definition list_del_init :: "addr \<Rightarrow> 'c shrinker \<Rightarrow> 'c shrinker" where
  "list_del_init a st =
     log_action (List_del_init a) (st\<lparr>f3fs_list := removeAll a (f3fs_list st)\<rparr>)"

subsection \<open>f3fs_shrink_count\<close>

text \<open>
  The walk of \<open>f3fs_shrink_count\<close>. The argument list holds the nodes from \<open>p\<close> to the
  end of the list; \<open>p = p->next\<close> drops its head.
\<close>

fun shrink_count_loop :: "ulong \<Rightarrow> addr list \<Rightarrow> ulong \<Rightarrow> 'c shrinker \<Rightarrow> ulong \<times> 'c shrinker" where
  "shrink_count_loop M [] count st = (count, st)"
| "shrink_count_loop M (a # rest) count st =
     (if \<not> fst (mutex_trylock a st)
        then shrink_count_loop M rest count (snd (mutex_trylock a st))
      else let st1 = spin_unlock (snd (mutex_trylock a st));
               count1 = count + count_extent_cache (sbis st1 a);
               count2 = count1 + count_nat_entries (sbis st1 a);
               count3 = count2 + count_free_nids M (sbis st1 a);
               st2 = spin_lock st1;
               st3 = mutex_unlock a st2
           in shrink_count_loop M rest count3 st3)"

definition f3fs_shrink_count :: "ulong \<Rightarrow> 'c shrinker \<Rightarrow> ulong \<times> 'c shrinker" where
  "f3fs_shrink_count M st =
     (let st1 = spin_lock st;
          r = shrink_count_loop M (f3fs_list st1) 0 st1
      in (fst r, spin_unlock (snd r)))"

subsection \<open>f3fs_shrink_scan\<close>

text \<open>\<open>do { run_no = ++shrinker_run_no; } while (run_no == 0);\<close>\<close>

function next_run_no :: "uint \<Rightarrow> uint" where
  "next_run_no c = (let run_no = c + 1 in if run_no = 0 then next_run_no run_no else run_no)"
  by pat_completeness auto
termination
  by (relation "measure (\<lambda>c. if c + 1 = 0 then 1 else 0)") auto

text \<open>
  The body of the walk for a file system whose mutex was taken: from the
  \<open>spin_unlock\<close> after the trylock to the \<open>mutex_unlock\<close>.
\<close>

definition scan_sbi ::
  "'c cache_ops \<Rightarrow> uint \<Rightarrow> ulong \<Rightarrow> addr \<Rightarrow> ulong \<Rightarrow> 'c shrinker \<Rightarrow> ulong \<times> 'c shrinker" where
  "scan_sbi ops run_no nr a freed st =
     (let st1 = spin_unlock st;
          st2 = set_sbi a ((sbis st1 a)\<lparr>sbi_shrinker_run_no := run_no\<rparr>) st1;
          (r1, st3) = cache_call (f3fs_shrink_extent_tree ops) Shrink_extent_tree a (drop_bit 1 nr) st2;
          freed1 = freed + r1;
          (freed2, st4) =
             (if freed1 < nr
              then let (r2, s) = cache_call (f3fs_try_to_free_nats ops) Try_to_free_nats a (nr - freed1) st3
                   in (freed1 + r2, s)
              else (freed1, st3));
          (freed3, st5) =
             (if freed2 < nr
              then let (r3, s) = cache_call (f3fs_try_to_free_nids ops) Try_to_free_nids a (nr - freed2) st4
                   in (freed2 + r3, s)
              else (freed2, st4));
          st6 = spin_lock st5;
          st7 = list_move_tail a st6;
          st8 = mutex_unlock a st7
      in (freed3, st8))"

text \<open>
  The walk of \<open>f3fs_shrink_scan\<close>. The argument list holds the nodes from \<open>p\<close> to the
  end of the list. \<open>p = p->next\<close> is read before \<open>list_move_tail\<close>: when the node
  served was the last one, \<open>p\<close> is the list head and the walk is over; otherwise \<open>p\<close>
  is the old successor, and the node served now ends the list behind it.
\<close>

function shrink_scan_loop ::
  "'c cache_ops \<Rightarrow> uint \<Rightarrow> ulong \<Rightarrow> addr list \<Rightarrow> ulong \<Rightarrow> 'c shrinker \<Rightarrow> ulong \<times> 'c shrinker" where
  "shrink_scan_loop ops run_no nr [] freed st = (freed, st)"
| "shrink_scan_loop ops run_no nr (a # rest) freed st =
     (if sbi_shrinker_run_no (sbis st a) = run_no then (freed, st)
      else if \<not> fst (mutex_trylock a st)
        then shrink_scan_loop ops run_no nr rest freed (snd (mutex_trylock a st))
      else let r = scan_sbi ops run_no nr a freed (snd (mutex_trylock a st));
               p = (if rest = [] then [] else rest @ [a])
           in if fst r \<ge> nr then r
              else shrink_scan_loop ops run_no nr p (fst r) (snd r))"
  by pat_completeness auto

definition f3fs_shrink_scan :: "'c cache_ops \<Rightarrow> ulong \<Rightarrow> 'c shrinker \<Rightarrow> ulong \<times> 'c shrinker" where
  "f3fs_shrink_scan ops nr st =
     (let st1 = spin_lock st;
          run_no = next_run_no (shrinker_run_no st1);
          st2 = st1\<lparr>shrinker_run_no := run_no\<rparr>;
          r = shrink_scan_loop ops run_no nr (f3fs_list st2) 0 st2
      in (fst r, spin_unlock (snd r)))"

subsection \<open>f3fs_join_shrinker and f3fs_leave_shrinker\<close>

definition f3fs_join_shrinker :: "addr \<Rightarrow> 'c shrinker \<Rightarrow> 'c shrinker" where
  "f3fs_join_shrinker a st = spin_unlock (list_add_tail a (spin_lock st))"

definition f3fs_leave_shrinker :: "'c cache_ops \<Rightarrow> addr \<Rightarrow> 'c shrinker \<Rightarrow> 'c shrinker" where
  "f3fs_leave_shrinker ops a st =
     (let r = cache_call (f3fs_shrink_extent_tree ops) Shrink_extent_tree a
                (count_extent_cache (sbis st a)) st
      in spin_unlock (list_del_init a (spin_lock (snd r))))"

subsection \<open>Reading the log\<close>

text \<open>The actions logged between two states of one execution.\<close>

definition new_actions :: "'c shrinker \<Rightarrow> 'c shrinker \<Rightarrow> action list" where
  "new_actions st st' = drop (length (trace st)) (trace st')"

definition extends :: "'c shrinker \<Rightarrow> 'c shrinker \<Rightarrow> bool" where
  "extends st st' = (take (length (trace st)) (trace st') = trace st)"

text \<open>The file systems whose mutex was taken, and those whose mutex was found held.\<close>

fun acquired :: "action list \<Rightarrow> addr list" where
  "acquired [] = []"
| "acquired (Mutex_trylock a True # es) = a # acquired es"
| "acquired (e # es) = acquired es"

fun refused :: "action list \<Rightarrow> addr list" where
  "refused [] = []"
| "refused (Mutex_trylock a False # es) = a # refused es"
| "refused (e # es) = refused es"

fun is_trylock :: "action \<Rightarrow> bool" where
  "is_trylock (Mutex_trylock a ok) = True"
| "is_trylock e = False"

text \<open>The file system an action works on, if any.\<close>

fun action_addr :: "action \<Rightarrow> addr option" where
  "action_addr (Mutex_trylock a ok) = Some a"
| "action_addr (Mutex_unlock a) = Some a"
| "action_addr (Shrink_extent_tree a n r) = Some a"
| "action_addr (Try_to_free_nats a n r) = Some a"
| "action_addr (Try_to_free_nids a n r) = Some a"
| "action_addr (List_move_tail a) = Some a"
| "action_addr (List_add_tail a) = Some a"
| "action_addr (List_del_init a) = Some a"
| "action_addr e = None"

definition visits :: "addr \<Rightarrow> action list \<Rightarrow> bool" where
  "visits a es = (Some a \<in> set (map action_addr es))"

text \<open>The number of objects a call into a cache returned.\<close>

fun returned :: "action \<Rightarrow> ulong" where
  "returned (Shrink_extent_tree a n r) = r"
| "returned (Try_to_free_nats a n r) = r"
| "returned (Try_to_free_nids a n r) = r"
| "returned e = 0"

fun is_shrink :: "action \<Rightarrow> bool" where
  "is_shrink (Shrink_extent_tree a n r) = True"
| "is_shrink (Try_to_free_nats a n r) = True"
| "is_shrink (Try_to_free_nids a n r) = True"
| "is_shrink e = False"

subsection \<open>The budget of a scan, as the specification words it\<close>

text \<open>
  The three tiers, read off the log. After its mutex is taken, a record owes a request to
  its extent cache (\<open>Tier1\<close>) of half the target; then, while the total freed is below
  the target, a request to its NAT cache (\<open>Tier2\<close>) and one to its free-nid cache
  (\<open>Tier3\<close>), each of the target less the total freed so far. The total is carried from
  record to record.
\<close>

datatype tier = Idle | Tier1 addr | Tier2 addr | Tier3 addr

fun pending :: "ulong \<Rightarrow> ulong \<Rightarrow> tier \<Rightarrow> tier" where
  "pending target freed (Tier2 a) = (if freed < target then Tier2 a else Idle)"
| "pending target freed (Tier3 a) = (if freed < target then Tier3 a else Idle)"
| "pending target freed t = t"

fun tier_request :: "ulong \<Rightarrow> tier \<Rightarrow> ulong \<Rightarrow> action \<Rightarrow> (tier \<times> ulong) option" where
  "tier_request target Idle freed (Mutex_trylock a True) = Some (Tier1 a, freed)"
| "tier_request target (Tier1 a) freed (Shrink_extent_tree b n r) =
     (if b = a \<and> n = target div 2 then Some (Tier2 a, freed + r) else None)"
| "tier_request target (Tier2 a) freed (Try_to_free_nats b n r) =
     (if b = a \<and> n = target - freed then Some (Tier3 a, freed + r) else None)"
| "tier_request target (Tier3 a) freed (Try_to_free_nids b n r) =
     (if b = a \<and> n = target - freed then Some (Idle, freed + r) else None)"
| "tier_request target t freed e = None"

fun tiers_run :: "ulong \<Rightarrow> tier \<Rightarrow> ulong \<Rightarrow> action list \<Rightarrow> (tier \<times> ulong) option" where
  "tiers_run target t freed [] = Some (t, freed)"
| "tiers_run target t freed (e # es) =
     (case tier_request target (pending target freed t) freed e of
        None \<Rightarrow> None
      | Some s \<Rightarrow> tiers_run target (fst s) (snd s) es)"

fun tier_relevant :: "action \<Rightarrow> bool" where
  "tier_relevant (Mutex_trylock a ok) = ok"
| "tier_relevant e = is_shrink e"

text \<open>The total freed when the log follows the tiers from the state \<open>(t, freed)\<close> on.\<close>

definition tiers_from :: "ulong \<Rightarrow> tier \<Rightarrow> ulong \<Rightarrow> action list \<Rightarrow> ulong option" where
  "tiers_from target t freed es =
     (case tiers_run target t freed (filter tier_relevant es) of
        None \<Rightarrow> None
      | Some s \<Rightarrow> if pending target (snd s) (fst s) = Idle then Some (snd s) else None)"

text \<open>
  The log of a scan follows the tiers when every request in it is the one owed, nothing
  owed is left out, and the total is the sum of what the caches returned.
\<close>

definition tiers_conform :: "ulong \<Rightarrow> action list \<Rightarrow> ulong option" where
  "tiers_conform target es =
     (case tiers_run target Idle 0 (filter tier_relevant es) of
        None \<Rightarrow> None
      | Some s \<Rightarrow> if pending target (snd s) (fst s) = Idle then Some (snd s) else None)"

text \<open>
  No step of the walk and no request to a cache once the total freed has reached the
  target: \<open>freed\<close> is the total before the first action of the list.
\<close>

fun budget_respected :: "ulong \<Rightarrow> ulong \<Rightarrow> action list \<Rightarrow> bool" where
  "budget_respected target freed [] = True"
| "budget_respected target freed (e # es) =
     ((if is_trylock e \<or> is_shrink e then freed < target else True)
      \<and> budget_respected target (freed + returned e) es)"

subsection \<open>Round robin\<close>

fun gate_or_move :: "action \<Rightarrow> bool" where
  "gate_or_move (Mutex_trylock a ok) = ok"
| "gate_or_move (List_move_tail a) = True"
| "gate_or_move (Mutex_unlock a) = True"
| "gate_or_move e = False"

text \<open>A scan for one object frees at least one object from caches in the state \<open>c\<close>.\<close>

definition frees_one :: "'c cache_ops \<Rightarrow> 'c f3fs_caches \<Rightarrow> bool" where
  "frees_one ops c =
     (let e = f3fs_shrink_extent_tree ops c 0
      in if fst e \<noteq> 0 then True
         else let n = f3fs_try_to_free_nats ops (snd e) 1
              in if fst n \<noteq> 0 then True
                 else fst (f3fs_try_to_free_nids ops (snd n) 1) \<noteq> 0)"

text \<open>The run numbers of \<open>n\<close> scans in a row, and the state after them.\<close>

fun run_ids :: "uint \<Rightarrow> nat \<Rightarrow> uint list" where
  "run_ids c 0 = []"
| "run_ids c (Suc n) = next_run_no c # run_ids (next_run_no c) n"

fun scans :: "'c cache_ops \<Rightarrow> ulong \<Rightarrow> nat \<Rightarrow> 'c shrinker \<Rightarrow> 'c shrinker" where
  "scans ops nr 0 st = st"
| "scans ops nr (Suc n) st = scans ops nr n (snd (f3fs_shrink_scan ops nr st))"

text \<open>The file systems whose mutex a log shows tried, taken or not, in the order of the log.\<close>

fun tried :: "action list \<Rightarrow> addr list" where
  "tried [] = []"
| "tried (Mutex_trylock a ok # es) = a # tried es"
| "tried (e # es) = tried es"

subsection \<open>Histories of the registry\<close>

text \<open>The four entry points as events, and a history of them run from a state.\<close>

datatype 'c event = Join addr | Leave "'c cache_ops" addr | Count ulong | Scan "'c cache_ops" ulong

fun step :: "'c event \<Rightarrow> 'c shrinker \<Rightarrow> 'c shrinker" where
  "step (Join a) st = f3fs_join_shrinker a st"
| "step (Leave ops a) st = f3fs_leave_shrinker ops a st"
| "step (Count M) st = snd (f3fs_shrink_count M st)"
| "step (Scan ops nr) st = snd (f3fs_shrink_scan ops nr st)"

fun run_events :: "'c event list \<Rightarrow> 'c shrinker \<Rightarrow> 'c shrinker" where
  "run_events [] st = st"
| "run_events (e # es) st = run_events es (step e st)"

text \<open>
  A quiet history: no mutex is ever held by another party. A file system joins with its
  mutex free, and the four entry points release what they take. It joins when it is not in
  the list and before any scan has served it, so that its run number is the zero that no
  scan draws (the record is zeroed where it is allocated, in \<open>super.c\<close>, which is not
  among the sources), and the list stays shorter than the \<open>2^32 - 1\<close> run numbers there
  are. Counts, scans and leaves are unrestricted, with any target and any caches.
\<close>

fun quiet :: "'c event list \<Rightarrow> 'c shrinker \<Rightarrow> bool" where
  "quiet [] st = True"
| "quiet (Join a # es) st =
     (a \<notin> set (f3fs_list st) \<and> sbi_shrinker_run_no (sbis st a) = 0
      \<and> \<not> sbi_umount_mutex (sbis st a) \<and> length (f3fs_list st) < 4294967294
      \<and> quiet es (step (Join a) st))"
| "quiet (e # es) st = quiet es (step e st)"

text \<open>
  What quiet histories keep: the list holds each file system once and fewer than
  \<open>2^32 - 1\<close> of them, every mutex in it is free, and the file system at place \<open>i\<close>
  of the list, the head at place 0, does not carry one of the next \<open>i + 1\<close> run numbers.
\<close>

fun aged :: "(addr \<Rightarrow> uint) \<Rightarrow> uint \<Rightarrow> nat \<Rightarrow> addr list \<Rightarrow> bool" where
  "aged m c n [] = True"
| "aged m c n (b # l) = (m b \<notin> set (run_ids c (Suc n)) \<and> aged m c (Suc n) l)"

definition in_turn :: "'c shrinker \<Rightarrow> bool" where
  "in_turn st =
     (distinct (f3fs_list st) \<and> length (f3fs_list st) < 4294967295
      \<and> list_all (\<lambda>b. \<not> sbi_umount_mutex (sbis st b)) (f3fs_list st)
      \<and> aged (\<lambda>b. sbi_shrinker_run_no (sbis st b)) (shrinker_run_no st) 0 (f3fs_list st))"

subsection \<open>A registry to run the code on\<close>

definition sbi0 :: "unit f3fs_sb_info" where
  "sbi0 = \<lparr>sbi_umount_mutex = False, sbi_shrinker_run_no = 0,
            caches = \<lparr>total_zombie_tree = 2, total_ext_node = 3, nat_cnt_RECLAIMABLE_NAT = 4,
                       nid_cnt_FREE_NID = 5, internals = ()\<rparr>\<rparr>"

text \<open>Caches that free what they are asked for.\<close>

definition ops0 :: "unit cache_ops" where
  "ops0 = \<lparr>f3fs_shrink_extent_tree = (\<lambda>c n. (n, c)),
            f3fs_try_to_free_nats = (\<lambda>c n. (n, c)),
            f3fs_try_to_free_nids = (\<lambda>c n. (n, c))\<rparr>"

text \<open>Caches that free nothing.\<close>

definition ops_empty :: "unit cache_ops" where
  "ops_empty = \<lparr>f3fs_shrink_extent_tree = (\<lambda>c n. (0, c)),
            f3fs_try_to_free_nats = (\<lambda>c n. (0, c)),
            f3fs_try_to_free_nids = (\<lambda>c n. (0, c))\<rparr>"

definition registry0 :: "addr list \<Rightarrow> uint \<Rightarrow> (addr \<Rightarrow> unit f3fs_sb_info) \<Rightarrow> unit shrinker" where
  "registry0 l c h = \<lparr>f3fs_list = l, shrinker_run_no = c, sbis = h, trace = []\<rparr>"

section \<open>Properties\<close>

subsection \<open>Termination of the walk\<close>

lemma run_no_trylock [simp]:
  "sbi_shrinker_run_no (sbis (snd (mutex_trylock a st)) b) = sbi_shrinker_run_no (sbis st b)"
  by (simp add: mutex_trylock_def log_action_def set_sbi_def)

lemma run_no_cache_call [simp]:
  "sbi_shrinker_run_no (sbis (snd (cache_call f ev a n st)) b) = sbi_shrinker_run_no (sbis st b)"
  by (simp add: cache_call_def log_action_def set_sbi_def Let_def)

lemma run_no_scan_sbi:
  "sbi_shrinker_run_no (sbis (snd (scan_sbi ops run_no nr a freed st)) b) =
     (if b = a then run_no else sbi_shrinker_run_no (sbis st b))"
  by (simp add: scan_sbi_def Let_def split_beta mutex_unlock_def list_move_tail_def
      spin_lock_def spin_unlock_def log_action_def set_sbi_def)

lemma filter_stamp_le:
  "length (filter (\<lambda>b. b \<noteq> a \<and> m b \<noteq> r) l) \<le> length (filter (\<lambda>b. m b \<noteq> (r::uint)) l)"
  by (induction l) auto

text \<open>
  Each turn of the walk either leaves a node whose number is not that of the run behind,
  or gives it that number: the nodes from \<open>p\<close> on that do not carry the number of the
  run become fewer.
\<close>

termination shrink_scan_loop
proof (relation "measure (\<lambda>(ops, run_no, nr, l, freed, st).
          length (filter (\<lambda>b. sbi_shrinker_run_no (sbis st b) \<noteq> run_no) l))", goal_cases)
  case 1
  show ?case by simp
next
  case (2 ops run_no nr a rest freed st)
  then show ?case by simp
next
  case (3 ops run_no nr a rest freed st x xa)
  let ?m = "\<lambda>b. sbi_shrinker_run_no (sbis st b)"
  let ?st = "snd (scan_sbi ops run_no nr a freed (snd (mutex_trylock a st)))"
  have eq: "(\<lambda>b. sbi_shrinker_run_no (sbis ?st b) \<noteq> run_no) = (\<lambda>b. b \<noteq> a \<and> ?m b \<noteq> run_no)"
    by (auto simp: fun_eq_iff run_no_scan_sbi)
  have "length (filter (\<lambda>b. sbi_shrinker_run_no (sbis ?st b) \<noteq> run_no) xa)
          \<le> length (filter (\<lambda>b. ?m b \<noteq> run_no) rest)"
    unfolding eq using filter_stamp_le [of a ?m run_no rest] 3(4) by simp
  with 3 show ?case by (simp add: split_beta)
qed

subsection \<open>Machine arithmetic\<close>

declare next_run_no.simps [simp del]

lemma next_run_no_eq: "next_run_no c = (if c = - 1 then 1 else c + 1)"
proof (cases "c + 1 = 0")
  case True
  then have c: "c = - 1" by (simp add: add_eq_0_iff2)
  have "next_run_no (0::uint) = 1" by (subst next_run_no.simps) simp
  with c show ?thesis by (subst next_run_no.simps) simp
next
  case False
  then have "c \<noteq> - 1" by auto
  with False show ?thesis by (subst next_run_no.simps) (simp add: Let_def)
qed

lemma next_run_no_nonzero: "next_run_no c \<noteq> 0"
  by (simp add: next_run_no_eq add_eq_0_iff2)

lemma next_run_no_less:
  assumes "c \<noteq> - 1"
  shows "c < next_run_no c"
proof -
  have "\<not> c + 1 \<le> c" using assms inc_less_eq_triv_imp by blast
  then show ?thesis using assms by (simp add: next_run_no_eq)
qed

lemma signed_take_bit_63:
  "- 9223372036854775808 \<le> k \<Longrightarrow> k < 9223372036854775808 \<Longrightarrow> signed_take_bit 63 (k::int) = k"
  by (rule signed_take_bit_int_eq_self) simp_all

text \<open>The difference taken in \<open>unsigned long\<close> and read as a \<open>long\<close> is the true difference.\<close>

lemma long_difference:
  fixes n :: uint and M :: ulong
  assumes "unat M < 2 ^ 63"
  shows "sint ((ucast n :: ulong) - M) = uint n - uint M"
proof -
  have u: "uint (ucast n :: ulong) = uint n"
    by (simp add: uint_up_ucast is_up)
  have n: "0 \<le> uint n" "uint n < 4294967296" using uint_bounded [of n] by simp_all
  have "nat (uint M) < 2 ^ 63" using assms by (simp only: unat_eq_nat_uint)
  then have "uint M < 2 ^ 63" by (simp only: nat_less_numeral_power_cancel_iff)
  then have M: "0 \<le> uint M" "uint M < 9223372036854775808" by simp_all
  have "signed_take_bit 63 (uint n) = uint n" using n by (intro signed_take_bit_63) linarith+
  then have a: "sint (ucast n :: ulong) = uint n"
    by (simp add: sint_uint u)
  have "signed_take_bit 63 (uint M) = uint M" using M by (intro signed_take_bit_63) linarith+
  then have b: "sint M = uint M"
    by (simp add: sint_uint)
  have "sint ((ucast n :: ulong) - M) = signed_take_bit 63 (uint n - uint M)"
    by (simp add: sint_word_ariths a b)
  also have "\<dots> = uint n - uint M" using n M by (intro signed_take_bit_63) linarith+
  finally show ?thesis .
qed

text \<open>While the two counters of the extent cache stay below \<open>2 ^ 31\<close>, their count is their sum.\<close>

lemma signed_take_bit_31:
  "0 \<le> k \<Longrightarrow> k < 2147483648 \<Longrightarrow> signed_take_bit 31 (k::int) = k"
  by (rule signed_take_bit_int_eq_self) simp_all

lemma count_extent_cache_sum:
  assumes "unat (total_zombie_tree (caches sbi)) + unat (total_ext_node (caches sbi)) < 2 ^ 31"
  shows "unat (count_extent_cache sbi)
           = unat (total_zombie_tree (caches sbi)) + unat (total_ext_node (caches sbi))"
proof -
  let ?z = "total_zombie_tree (caches sbi)" and ?e = "total_ext_node (caches sbi)"
  have sum: "unat (?z + ?e) = unat ?z + unat ?e"
    using assms by (intro unat_add_lem [THEN iffD1]) simp
  then have "nat (uint (?z + ?e)) < 2 ^ 31" using assms by (simp only: unat_eq_nat_uint)
  then have "uint (?z + ?e) < 2 ^ 31" by (simp only: nat_less_numeral_power_cancel_iff)
  then have "uint (?z + ?e) < 2147483648" by simp
  then have "signed_take_bit 31 (uint (?z + ?e)) = uint (?z + ?e)"
    by (intro signed_take_bit_31) simp_all
  then have "sint (?z + ?e) = uint (?z + ?e)" by (simp add: sint_uint)
  then have "(scast (?z + ?e) :: ulong) = ucast (?z + ?e)" by (simp only: scast_eq ucast_eq)
  moreover have "uint (ucast (?z + ?e) :: ulong) = uint (?z + ?e)"
    by (simp add: uint_up_ucast is_up)
  ultimately have "unat (count_extent_cache sbi) = unat (?z + ?e)"
    by (simp only: count_extent_cache_def unat_eq_nat_uint)
  with sum show ?thesis by simp
qed

lemma unat_sum_list:
  fixes f :: "'a \<Rightarrow> ulong"
  assumes "sum_list (map (\<lambda>a. unat (f a)) l) < 2 ^ 64"
  shows "unat (sum_list (map f l)) = sum_list (map (\<lambda>a. unat (f a)) l)"
  using assms
proof (induction l)
  case Nil
  show ?case by simp
next
  case (Cons a l)
  then have "unat (sum_list (map f l)) = sum_list (map (\<lambda>a. unat (f a)) l)" by simp
  moreover have "unat (f a) + sum_list (map (\<lambda>a. unat (f a)) l) < 2 ^ 64" using Cons.prems by simp
  ultimately show ?case by (simp add: unat_add_lem [THEN iffD1])
qed

subsection \<open>The primitive steps\<close>

lemma log_action_simps [simp]:
  "f3fs_list (log_action e st) = f3fs_list st"
  "shrinker_run_no (log_action e st) = shrinker_run_no st"
  "sbis (log_action e st) = sbis st"
  "trace (log_action e st) = trace st @ [e]"
  by (simp_all add: log_action_def)

lemma set_sbi_simps [simp]:
  "f3fs_list (set_sbi a x st) = f3fs_list st"
  "shrinker_run_no (set_sbi a x st) = shrinker_run_no st"
  "sbis (set_sbi a x st) = (sbis st)(a := x)"
  "trace (set_sbi a x st) = trace st"
  by (simp_all add: set_sbi_def)

lemma spin_simps [simp]:
  "f3fs_list (spin_lock st) = f3fs_list st"
  "shrinker_run_no (spin_lock st) = shrinker_run_no st"
  "sbis (spin_lock st) = sbis st"
  "trace (spin_lock st) = trace st @ [Spin_lock]"
  "f3fs_list (spin_unlock st) = f3fs_list st"
  "shrinker_run_no (spin_unlock st) = shrinker_run_no st"
  "sbis (spin_unlock st) = sbis st"
  "trace (spin_unlock st) = trace st @ [Spin_unlock]"
  by (simp_all add: spin_lock_def spin_unlock_def)

lemma mutex_trylock_simps [simp]:
  "fst (mutex_trylock a st) = (\<not> sbi_umount_mutex (sbis st a))"
  "f3fs_list (snd (mutex_trylock a st)) = f3fs_list st"
  "shrinker_run_no (snd (mutex_trylock a st)) = shrinker_run_no st"
  "trace (snd (mutex_trylock a st)) = trace st @ [Mutex_trylock a (\<not> sbi_umount_mutex (sbis st a))]"
  "sbis (snd (mutex_trylock a st)) = (sbis st)(a := (sbis st a)\<lparr>sbi_umount_mutex := True\<rparr>)"
  by (auto simp: mutex_trylock_def fun_eq_iff)

lemma mutex_unlock_simps [simp]:
  "f3fs_list (mutex_unlock a st) = f3fs_list st"
  "shrinker_run_no (mutex_unlock a st) = shrinker_run_no st"
  "trace (mutex_unlock a st) = trace st @ [Mutex_unlock a]"
  "sbis (mutex_unlock a st) = (sbis st)(a := (sbis st a)\<lparr>sbi_umount_mutex := False\<rparr>)"
  by (simp_all add: mutex_unlock_def)

lemma cache_call_simps [simp]:
  "fst (cache_call f ev a n st) = fst (f (caches (sbis st a)) n)"
  "f3fs_list (snd (cache_call f ev a n st)) = f3fs_list st"
  "shrinker_run_no (snd (cache_call f ev a n st)) = shrinker_run_no st"
  "trace (snd (cache_call f ev a n st)) = trace st @ [ev a n (fst (f (caches (sbis st a)) n))]"
  "sbis (snd (cache_call f ev a n st)) = (sbis st)(a := (sbis st a)\<lparr>caches := snd (f (caches (sbis st a)) n)\<rparr>)"
  by (simp_all add: cache_call_def Let_def)

lemma list_ops_simps [simp]:
  "f3fs_list (list_move_tail a st) = removeAll a (f3fs_list st) @ [a]"
  "shrinker_run_no (list_move_tail a st) = shrinker_run_no st"
  "sbis (list_move_tail a st) = sbis st"
  "trace (list_move_tail a st) = trace st @ [List_move_tail a]"
  "f3fs_list (list_add_tail a st) = f3fs_list st @ [a]"
  "shrinker_run_no (list_add_tail a st) = shrinker_run_no st"
  "sbis (list_add_tail a st) = sbis st"
  "trace (list_add_tail a st) = trace st @ [List_add_tail a]"
  "f3fs_list (list_del_init a st) = removeAll a (f3fs_list st)"
  "shrinker_run_no (list_del_init a st) = shrinker_run_no st"
  "sbis (list_del_init a st) = sbis st"
  "trace (list_del_init a st) = trace st @ [List_del_init a]"
  by (simp_all add: list_move_tail_def list_add_tail_def list_del_init_def)

lemma count_caches_only [simp]:
  "count_extent_cache (sbi\<lparr>sbi_umount_mutex := b\<rparr>) = count_extent_cache sbi"
  "count_nat_entries (sbi\<lparr>sbi_umount_mutex := b\<rparr>) = count_nat_entries sbi"
  "count_free_nids M (sbi\<lparr>sbi_umount_mutex := b\<rparr>) = count_free_nids M sbi"
  by (simp_all add: count_extent_cache_def count_nat_entries_def count_free_nids_def)

lemma mutex_restore: "\<not> sbi_umount_mutex x \<Longrightarrow> x\<lparr>sbi_umount_mutex := False\<rparr> = x"
  by (cases x) simp

subsection \<open>Logs\<close>

lemma extends_refl [simp]: "extends st st"
  by (simp add: extends_def)

lemma extends_iff: "extends st st' \<longleftrightarrow> (\<exists>xs. trace st' = trace st @ xs)"
  unfolding extends_def by (metis append_eq_conv_conj)

lemma extends_trace: "extends st st' \<Longrightarrow> trace st' = trace st @ new_actions st st'"
  by (auto simp: extends_iff new_actions_def)

lemma extends_trans: "extends s0 s1 \<Longrightarrow> extends s1 s2 \<Longrightarrow> extends s0 s2"
  by (auto simp: extends_iff)

lemma new_actions_trans:
  "extends s0 s1 \<Longrightarrow> extends s1 s2 \<Longrightarrow> new_actions s0 s2 = new_actions s0 s1 @ new_actions s1 s2"
  by (auto simp: extends_iff new_actions_def)

lemma new_actions_self [simp]: "new_actions st st = []"
  by (simp add: new_actions_def)

lemma extendsI: "trace st' = trace st @ xs \<Longrightarrow> extends st st'"
  by (auto simp: extends_iff)

lemma new_actionsI: "trace st' = trace st @ xs \<Longrightarrow> new_actions st st' = xs"
  by (simp add: new_actions_def)

subsection \<open>The walk of f3fs_shrink_count\<close>

lemma count_loop_frame:
  "f3fs_list (snd (shrink_count_loop M l c st)) = f3fs_list st
   \<and> shrinker_run_no (snd (shrink_count_loop M l c st)) = shrinker_run_no st
   \<and> sbis (snd (shrink_count_loop M l c st)) = sbis st"
  by (induction l arbitrary: c st) (auto simp: Let_def mutex_restore)

lemma count_loop_trace:
  "trace (snd (shrink_count_loop M l c st)) = trace st @
     concat (map (\<lambda>a. if sbi_umount_mutex (sbis st a) then [Mutex_trylock a False]
                      else [Mutex_trylock a True, Spin_unlock, Spin_lock, Mutex_unlock a]) l)"
proof (induction l arbitrary: c st)
  case Nil
  show ?case by simp
next
  case (Cons a l)
  show ?case
  proof (cases "sbi_umount_mutex (sbis st a)")
    case True
    have "sbis (snd (mutex_trylock a st)) = sbis st" using True 
      by (simp add: mutex_trylock_def)
    with True Cons [of c "snd (mutex_trylock a st)"] show ?thesis by (simp del: mutex_trylock_simps(5))
  next
    case False
    let ?st = "mutex_unlock a (spin_lock (spin_unlock (snd (mutex_trylock a st))))"
    have "sbis ?st = sbis st" using False by (simp add: mutex_restore)
    with False Cons [of _ ?st] show ?thesis by (simp add: Let_def del: mutex_trylock_simps(5) mutex_unlock_simps(4))
  qed
qed

lemma count_loop_value:
  "fst (shrink_count_loop M l c st) = c +
     sum_list (map (\<lambda>a. count_extent_cache (sbis st a) + count_nat_entries (sbis st a)
                          + count_free_nids M (sbis st a))
                 (filter (\<lambda>a. \<not> sbi_umount_mutex (sbis st a)) l))"
proof (induction l arbitrary: c st)
  case Nil
  show ?case by simp
next
  case (Cons a l)
  show ?case
  proof (cases "sbi_umount_mutex (sbis st a)")
    case True
    have "sbis (snd (mutex_trylock a st)) = sbis st" using True 
      by (simp add: mutex_trylock_def)
    with True Cons [of c "snd (mutex_trylock a st)"] show ?thesis by (simp del: mutex_trylock_simps(5))
  next
    case False
    let ?st = "mutex_unlock a (spin_lock (spin_unlock (snd (mutex_trylock a st))))"
    have "sbis ?st = sbis st" using False by (simp add: mutex_restore)
    moreover have "sbis (snd (mutex_trylock a st)) a = (sbis st a)\<lparr>sbi_umount_mutex := True\<rparr>"
      by simp
    ultimately show ?thesis using False Cons [of _ ?st]
      by (simp add: Let_def add.assoc del: mutex_trylock_simps(5) mutex_unlock_simps(4))
  qed
qed

lemma acquired_append [simp]: "acquired (xs @ ys) = acquired xs @ acquired ys"
  by (induction xs rule: acquired.induct) simp_all

lemma refused_append [simp]: "refused (xs @ ys) = refused xs @ refused ys"
  by (induction xs rule: refused.induct) simp_all

lemma acquired_count_visits:
  "acquired (concat (map (\<lambda>a. if busy a then [Mutex_trylock a False]
                      else [Mutex_trylock a True, Spin_unlock, Spin_lock, Mutex_unlock a]) l))
     = filter (\<lambda>a. \<not> busy a) l"
  by (induction l) simp_all

lemma refused_count_visits:
  "refused (concat (map (\<lambda>a. if busy a then [Mutex_trylock a False]
                      else [Mutex_trylock a True, Spin_unlock, Spin_lock, Mutex_unlock a]) l))
     = filter busy l"
  by (induction l) simp_all

lemma shrink_count_trace:
  "new_actions st (snd (f3fs_shrink_count M st)) =
     Spin_lock # concat (map (\<lambda>a. if sbi_umount_mutex (sbis st a) then [Mutex_trylock a False]
                      else [Mutex_trylock a True, Spin_unlock, Spin_lock, Mutex_unlock a]) (f3fs_list st))
       @ [Spin_unlock]"
  by (rule new_actionsI) (simp add: f3fs_shrink_count_def Let_def count_loop_trace)

lemma shrink_count_value:
  "fst (f3fs_shrink_count M st) =
     sum_list (map (\<lambda>a. count_extent_cache (sbis st a) + count_nat_entries (sbis st a)
                          + count_free_nids M (sbis st a))
                 (filter (\<lambda>a. \<not> sbi_umount_mutex (sbis st a)) (f3fs_list st)))"
  by (simp add: f3fs_shrink_count_def Let_def count_loop_value)

subsection \<open>The walk of f3fs_shrink_scan\<close>

declare shrink_scan_loop.simps [simp del]

lemma scan_sbi_frame [simp]:
  "f3fs_list (snd (scan_sbi ops r nr a f st)) = removeAll a (f3fs_list st) @ [a]"
  "shrinker_run_no (snd (scan_sbi ops r nr a f st)) = shrinker_run_no st"
  by (simp_all add: scan_sbi_def Let_def split_beta)

lemma scan_sbi_other: "b \<noteq> a \<Longrightarrow> sbis (snd (scan_sbi ops r nr a f st)) b = sbis st b"
  by (simp add: scan_sbi_def Let_def split_beta)

lemma scan_sbi_self [simp]:
  "sbi_shrinker_run_no (sbis (snd (scan_sbi ops r nr a f st)) a) = r"
  "sbi_umount_mutex (sbis (snd (scan_sbi ops r nr a f st)) a) = False"
  by (simp_all add: scan_sbi_def Let_def split_beta)

lemma scan_sbi_extends [simp]: "extends st (snd (scan_sbi ops r nr a f st))"
  by (rule extendsI [where xs = "new_actions st (snd (scan_sbi ops r nr a f st))"])
     (simp add: scan_sbi_def Let_def split_beta new_actions_def)

lemma trylock_extends [simp]: "extends st (snd (mutex_trylock a st))"
  by (rule extendsI) simp


lemma scan_loop_Nil [simp]: "shrink_scan_loop ops r nr [] f st = (f, st)"
  by (simp add: shrink_scan_loop.simps)

lemma scan_loop_Stop:
  "sbi_shrinker_run_no (sbis st a) = r \<Longrightarrow> shrink_scan_loop ops r nr (a # rest) f st = (f, st)"
  by (simp add: shrink_scan_loop.simps)

lemma scan_loop_Busy:
  "sbi_shrinker_run_no (sbis st a) \<noteq> r \<Longrightarrow> sbi_umount_mutex (sbis st a) \<Longrightarrow>
   shrink_scan_loop ops r nr (a # rest) f st
     = shrink_scan_loop ops r nr rest f (snd (mutex_trylock a st))"
  by (simp add: shrink_scan_loop.simps)

lemma scan_loop_Done:
  "sbi_shrinker_run_no (sbis st a) \<noteq> r \<Longrightarrow> \<not> sbi_umount_mutex (sbis st a) \<Longrightarrow>
   nr \<le> fst (scan_sbi ops r nr a f (snd (mutex_trylock a st))) \<Longrightarrow>
   shrink_scan_loop ops r nr (a # rest) f st = scan_sbi ops r nr a f (snd (mutex_trylock a st))"
  by (simp add: shrink_scan_loop.simps Let_def)

lemma scan_loop_More:
  "sbi_shrinker_run_no (sbis st a) \<noteq> r \<Longrightarrow> \<not> sbi_umount_mutex (sbis st a) \<Longrightarrow>
   \<not> nr \<le> fst (scan_sbi ops r nr a f (snd (mutex_trylock a st))) \<Longrightarrow>
   shrink_scan_loop ops r nr (a # rest) f st
     = shrink_scan_loop ops r nr (if rest = [] then [] else rest @ [a])
         (fst (scan_sbi ops r nr a f (snd (mutex_trylock a st))))
         (snd (scan_sbi ops r nr a f (snd (mutex_trylock a st))))"
  by (simp add: shrink_scan_loop.simps Let_def)

lemma scan_loop_induct [case_names Nil Stop Busy Done More]:
  assumes "\<And>f st. P [] f st"
    and "\<And>a rest f st. sbi_shrinker_run_no (sbis st a) = r \<Longrightarrow> P (a # rest) f st"
    and "\<And>a rest f st. sbi_shrinker_run_no (sbis st a) \<noteq> r \<Longrightarrow> sbi_umount_mutex (sbis st a) \<Longrightarrow>
           P rest f (snd (mutex_trylock a st)) \<Longrightarrow> P (a # rest) f st"
    and "\<And>a rest f st. sbi_shrinker_run_no (sbis st a) \<noteq> r \<Longrightarrow> \<not> sbi_umount_mutex (sbis st a) \<Longrightarrow>
           nr \<le> fst (scan_sbi ops r nr a f (snd (mutex_trylock a st))) \<Longrightarrow> P (a # rest) f st"
    and "\<And>a rest f st. sbi_shrinker_run_no (sbis st a) \<noteq> r \<Longrightarrow> \<not> sbi_umount_mutex (sbis st a) \<Longrightarrow>
           \<not> nr \<le> fst (scan_sbi ops r nr a f (snd (mutex_trylock a st))) \<Longrightarrow>
           P (if rest = [] then [] else rest @ [a])
             (fst (scan_sbi ops r nr a f (snd (mutex_trylock a st))))
             (snd (scan_sbi ops r nr a f (snd (mutex_trylock a st)))) \<Longrightarrow> P (a # rest) f st"
  shows "P l f st"
proof -
  have "ops' = ops \<Longrightarrow> r' = r \<Longrightarrow> nr' = nr \<Longrightarrow> P l f st" for ops' r' nr'
  proof (induction ops' r' nr' l f st rule: shrink_scan_loop.induct)
    case (1 ops run_no nr freed st)
    show ?case by (rule assms(1))
  next
    case (2 ops' r' nr' a rest freed st)
    note eqs = \<open>ops' = ops\<close> \<open>r' = r\<close> \<open>nr' = nr\<close>
    show ?case
    proof (cases "sbi_shrinker_run_no (sbis st a) = r")
      case True
      then show ?thesis by (rule assms(2))
    next
      case stale: False
      show ?thesis
      proof (cases "sbi_umount_mutex (sbis st a)")
        case True
        with stale 2(1) eqs show ?thesis by (intro assms(3)) simp_all
      next
        case False
        show ?thesis
        proof (cases "nr \<le> fst (scan_sbi ops r nr a freed (snd (mutex_trylock a st)))")
          case True
          with stale False show ?thesis by (intro assms(4))
        next
          case more: False
          with stale False 2(2) [OF _ _ refl refl] eqs show ?thesis by (intro assms(5)) simp_all
        qed
      qed
    qed
  qed
  then show ?thesis by simp
qed

lemma extends_trylock: "extends (snd (mutex_trylock a st)) s \<Longrightarrow> extends st s"
  by (rule extends_trans [OF trylock_extends])

lemma extends_scan_sbi: "extends (snd (scan_sbi ops r nr a f st)) s \<Longrightarrow> extends st s"
  by (rule extends_trans [OF scan_sbi_extends])

lemma scan_loop_extends [simp]: "extends st (snd (shrink_scan_loop ops r nr l f st))"
proof (induction l f st rule: scan_loop_induct [where r = r and nr = nr and ops = ops])
  case (Nil f st)
  show ?case by simp
next
  case (Stop a rest f st)
  then show ?case by (simp add: scan_loop_Stop)
next
  case (Busy a rest f st)
  from Busy(3) have "extends st (snd (shrink_scan_loop ops r nr rest f (snd (mutex_trylock a st))))"
    by (rule extends_trylock [of a])
  with Busy(1,2) show ?case by (simp add: scan_loop_Busy)
next
  case (Done a rest f st)
  have "extends st (snd (scan_sbi ops r nr a f (snd (mutex_trylock a st))))"
    by (rule extends_trylock [of a]) simp
  with Done show ?case by (simp add: scan_loop_Done)
next
  case (More a rest f st)
  show ?case unfolding scan_loop_More [OF More(1-3)]
    by (rule extends_trylock [of a], rule extends_scan_sbi [of ops r nr a f], rule More(4))
qed


lemma trylock_actions [simp]:
  "new_actions st (snd (mutex_trylock a st)) = [Mutex_trylock a (\<not> sbi_umount_mutex (sbis st a))]"
  by (rule new_actionsI) simp

lemma scan_acts_Stop:
  "sbi_shrinker_run_no (sbis st a) = r \<Longrightarrow>
   new_actions st (snd (shrink_scan_loop ops r nr (a # rest) f st)) = []"
  by (simp add: scan_loop_Stop)

lemma scan_acts_Busy:
  assumes "sbi_shrinker_run_no (sbis st a) \<noteq> r" "sbi_umount_mutex (sbis st a)"
  shows "new_actions st (snd (shrink_scan_loop ops r nr (a # rest) f st)) =
     Mutex_trylock a False #
       new_actions (snd (mutex_trylock a st))
         (snd (shrink_scan_loop ops r nr rest f (snd (mutex_trylock a st))))"
  using assms new_actions_trans [OF trylock_extends [of st a] scan_loop_extends [of _ ops r nr rest f]]
  by (simp add: scan_loop_Busy)

lemma scan_acts_Done:
  assumes "sbi_shrinker_run_no (sbis st a) \<noteq> r" "\<not> sbi_umount_mutex (sbis st a)"
    "nr \<le> fst (scan_sbi ops r nr a f (snd (mutex_trylock a st)))"
  shows "new_actions st (snd (shrink_scan_loop ops r nr (a # rest) f st)) =
     Mutex_trylock a True #
       new_actions (snd (mutex_trylock a st)) (snd (scan_sbi ops r nr a f (snd (mutex_trylock a st))))"
  using assms new_actions_trans [OF trylock_extends [of st a] scan_sbi_extends [of _ ops r nr a f]]
  by (simp add: scan_loop_Done)

lemma scan_acts_More:
  assumes "sbi_shrinker_run_no (sbis st a) \<noteq> r" "\<not> sbi_umount_mutex (sbis st a)"
    "\<not> nr \<le> fst (scan_sbi ops r nr a f (snd (mutex_trylock a st)))"
  shows "new_actions st (snd (shrink_scan_loop ops r nr (a # rest) f st)) =
     Mutex_trylock a True #
       new_actions (snd (mutex_trylock a st)) (snd (scan_sbi ops r nr a f (snd (mutex_trylock a st))))
       @ new_actions (snd (scan_sbi ops r nr a f (snd (mutex_trylock a st))))
           (snd (shrink_scan_loop ops r nr (if rest = [] then [] else rest @ [a])
              (fst (scan_sbi ops r nr a f (snd (mutex_trylock a st))))
              (snd (scan_sbi ops r nr a f (snd (mutex_trylock a st))))))"
proof -
  let ?s1 = "snd (mutex_trylock a st)"
  let ?x = "scan_sbi ops r nr a f ?s1"
  let ?s3 = "snd (shrink_scan_loop ops r nr (if rest = [] then [] else rest @ [a]) (fst ?x) (snd ?x))"
  have "extends ?s1 ?s3" by (rule extends_scan_sbi [of ops r nr a f]) simp
  then have "new_actions st ?s3 = new_actions st ?s1 @ new_actions ?s1 ?s3"
    by (intro new_actions_trans) simp_all
  also have "new_actions ?s1 ?s3 = new_actions ?s1 (snd ?x) @ new_actions (snd ?x) ?s3"
    by (intro new_actions_trans) simp_all
  finally show ?thesis using assms by (simp add: scan_loop_More)
qed

text \<open>The part of the log written by the body of the walk.\<close>

lemma scan_sbi_actions:
  "new_actions st (snd (scan_sbi ops r nr a f st)) =
     (let e = f3fs_shrink_extent_tree ops (caches (sbis st a)) (drop_bit 1 nr);
          f1 = f + fst e;
          n = f3fs_try_to_free_nats ops (snd e) (nr - f1);
          f2 = (if f1 < nr then f1 + fst n else f1);
          d = f3fs_try_to_free_nids ops (if f1 < nr then snd n else snd e) (nr - f2)
      in Spin_unlock # Shrink_extent_tree a (drop_bit 1 nr) (fst e) #
         (if f1 < nr then [Try_to_free_nats a (nr - f1) (fst n)] else []) @
         (if f2 < nr then [Try_to_free_nids a (nr - f2) (fst d)] else []) @
         [Spin_lock, List_move_tail a, Mutex_unlock a])"
  by (rule new_actionsI) (simp add: scan_sbi_def Let_def split_beta)

lemma scan_sbi_freed:
  "fst (scan_sbi ops r nr a f st) =
     (let e = f3fs_shrink_extent_tree ops (caches (sbis st a)) (drop_bit 1 nr);
          f1 = f + fst e;
          n = f3fs_try_to_free_nats ops (snd e) (nr - f1);
          f2 = (if f1 < nr then f1 + fst n else f1);
          d = f3fs_try_to_free_nids ops (if f1 < nr then snd n else snd e) (nr - f2)
      in if f2 < nr then f2 + fst d else f2)"
  by (simp add: scan_sbi_def Let_def split_beta)


subsection \<open>The tiers in the log of a scan\<close>

lemma tiers_conform_from: "tiers_conform target es = tiers_from target Idle 0 es"
  by (simp add: tiers_conform_def tiers_from_def)

lemma pending_idem [simp]: "pending target f (pending target f t) = pending target f t"
  by (cases t) simp_all

lemma tiers_run_pending:
  "es \<noteq> [] \<Longrightarrow> tiers_run target (pending target f t) f es = tiers_run target t f es"
  by (cases es) simp_all

lemma tiers_from_pending:
  "pending target f t = Idle \<Longrightarrow> tiers_from target t f es = tiers_from target Idle f es"
  using tiers_run_pending [of "filter tier_relevant es" target f t]
  by (cases "filter tier_relevant es = []") (simp_all add: tiers_from_def)

lemma tiers_run_append:
  "tiers_run target t f (xs @ ys) =
     (case tiers_run target t f xs of None \<Rightarrow> None | Some s \<Rightarrow> tiers_run target (fst s) (snd s) ys)"
  by (induction xs arbitrary: t f) (simp_all split: option.splits)

lemma tiers_from_Some:
  assumes "tiers_from target t f xs = Some f1"
  obtains t1 where "tiers_run target t f (filter tier_relevant xs) = Some (t1, f1)"
    and "pending target f1 t1 = Idle"
proof (cases "tiers_run target t f (filter tier_relevant xs)")
  case None
  with assms show ?thesis by (simp add: tiers_from_def)
next
  case (Some s)
  show ?thesis
  proof (cases "pending target (snd s) (fst s) = Idle")
    case True
    with Some assms have "snd s = f1" by (simp add: tiers_from_def)
    with Some True that [of "fst s"] show ?thesis by (cases s) simp
  next
    case False
    with Some assms show ?thesis by (simp add: tiers_from_def)
  qed
qed

lemma tiers_from_append:
  assumes "tiers_from target t f xs = Some f1"
  shows "tiers_from target t f (xs @ ys) = tiers_from target Idle f1 ys"
proof -
  from assms obtain t1 where run: "tiers_run target t f (filter tier_relevant xs) = Some (t1, f1)"
    and idle: "pending target f1 t1 = Idle"
    by (rule tiers_from_Some)
  have "tiers_from target t f (xs @ ys) = tiers_from target t1 f1 ys"
    by (simp add: tiers_from_def tiers_run_append run)
  also have "\<dots> = tiers_from target Idle f1 ys" using idle by (rule tiers_from_pending)
  finally show ?thesis .
qed

lemma tiers_from_skip: "\<not> tier_relevant e \<Longrightarrow> tiers_from target t f (e # es) = tiers_from target t f es"
  by (simp add: tiers_from_def)

lemma tiers_from_Nil [simp]: "tiers_from target Idle f [] = Some f"
  by (simp add: tiers_from_def)

lemma tiers_block:
  "tiers_from nr Idle f (Mutex_trylock a True # new_actions st (snd (scan_sbi ops r nr a f st)))
     = Some (fst (scan_sbi ops r nr a f st))"
  by (simp add: scan_sbi_actions scan_sbi_freed tiers_from_def Let_def drop_bit_eq_div)


lemma scan_loop_tiers:
  "tiers_from nr Idle f (new_actions st (snd (shrink_scan_loop ops r nr l f st)))
     = Some (fst (shrink_scan_loop ops r nr l f st))"
proof (induction l f st rule: scan_loop_induct [where r = r and nr = nr and ops = ops])
  case (Nil f st)
  show ?case by simp
next
  case (Stop a rest f st)
  then show ?case by (simp add: scan_loop_Stop)
next
  case (Busy a rest f st)
  then show ?case by (simp add: scan_acts_Busy tiers_from_skip) (simp add: scan_loop_Busy)
next
  case (Done a rest f st)
  then show ?case by (simp add: scan_acts_Done tiers_block) (simp add: scan_loop_Done)
next
  case (More a rest f st)
  let ?x = "scan_sbi ops r nr a f (snd (mutex_trylock a st))"
  have "tiers_from nr Idle f (new_actions st (snd (shrink_scan_loop ops r nr (a # rest) f st)))
        = tiers_from nr Idle (fst ?x) (new_actions (snd ?x)
           (snd (shrink_scan_loop ops r nr (if rest = [] then [] else rest @ [a]) (fst ?x) (snd ?x))))"
    unfolding scan_acts_More [OF More(1-3)] append_Cons [symmetric]
    by (rule tiers_from_append) (rule tiers_block)
  with More show ?case by (simp add: scan_loop_More)
qed

lemma shrink_scan_actions:
  "new_actions st (snd (f3fs_shrink_scan ops nr st)) =
     (let st2 = (spin_lock st)\<lparr>shrinker_run_no := next_run_no (shrinker_run_no st)\<rparr>
      in Spin_lock #
         new_actions st2 (snd (shrink_scan_loop ops (next_run_no (shrinker_run_no st)) nr
                                 (f3fs_list st) 0 st2))
         @ [Spin_unlock])"
proof -
  let ?st2 = "(spin_lock st)\<lparr>shrinker_run_no := next_run_no (shrinker_run_no st)\<rparr>"
  let ?r = "shrink_scan_loop ops (next_run_no (shrinker_run_no st)) nr (f3fs_list st) 0 ?st2"
  have "trace (snd ?r) = trace ?st2 @ new_actions ?st2 (snd ?r)"
    by (rule extends_trace) simp
  then have "trace (spin_unlock (snd ?r)) = trace st @ Spin_lock # new_actions ?st2 (snd ?r) @ [Spin_unlock]"
    by simp
  moreover have "snd (f3fs_shrink_scan ops nr st) = spin_unlock (snd ?r)"
    by (simp add: f3fs_shrink_scan_def Let_def)
  ultimately show ?thesis unfolding Let_def by (intro new_actionsI) simp
qed

lemma shrink_scan_freed:
  "fst (f3fs_shrink_scan ops nr st) =
     fst (shrink_scan_loop ops (next_run_no (shrinker_run_no st)) nr (f3fs_list st) 0
            ((spin_lock st)\<lparr>shrinker_run_no := next_run_no (shrinker_run_no st)\<rparr>))"
  by (simp add: f3fs_shrink_scan_def Let_def)

subsection \<open>The budget in the log of a scan\<close>

lemma budget_append:
  "budget_respected nr f (xs @ ys) =
     (budget_respected nr f xs \<and> budget_respected nr (f + sum_list (map returned xs)) ys)"
  by (induction xs arbitrary: f) (simp_all add: add.assoc)

lemma budget_block:
  "f < nr \<Longrightarrow> budget_respected nr f (Mutex_trylock a True # new_actions st (snd (scan_sbi ops r nr a f st)))"
  by (simp add: scan_sbi_actions Let_def)

lemma returned_block:
  "f + sum_list (map returned (new_actions st (snd (scan_sbi ops r nr a f st))))
     = fst (scan_sbi ops r nr a f st)"
  by (simp add: scan_sbi_actions scan_sbi_freed Let_def add.assoc)

lemma scan_loop_budget:
  "f < nr \<Longrightarrow> budget_respected nr f (new_actions st (snd (shrink_scan_loop ops r nr l f st)))"
proof (induction l f st rule: scan_loop_induct [where r = r and nr = nr and ops = ops])
  case (Nil f st)
  show ?case by simp
next
  case (Stop a rest f st)
  then show ?case by (simp add: scan_loop_Stop)
next
  case (Busy a rest f st)
  then show ?case by (simp add: scan_acts_Busy)
next
  case (Done a rest f st)
  then show ?case using budget_block [of f nr a "snd (mutex_trylock a st)" ops r]
    by (simp add: scan_acts_Done)
next
  case (More a rest f st)
  let ?x = "scan_sbi ops r nr a f (snd (mutex_trylock a st))"
  from More(3) have "fst ?x < nr" by simp
  with More(4) have "budget_respected nr (fst ?x) (new_actions (snd ?x)
           (snd (shrink_scan_loop ops r nr (if rest = [] then [] else rest @ [a]) (fst ?x) (snd ?x))))"
    by simp
  with More(5) budget_block [of f nr a "snd (mutex_trylock a st)" ops r]
    returned_block [of f "snd (mutex_trylock a st)" ops r nr a]
  show ?case unfolding scan_acts_More [OF More(1-3)] append_Cons [symmetric] budget_append
    by simp
qed

lemma scan_loop_returned:
  "f + sum_list (map returned (new_actions st (snd (shrink_scan_loop ops r nr l f st))))
     = fst (shrink_scan_loop ops r nr l f st)"
proof (induction l f st rule: scan_loop_induct [where r = r and nr = nr and ops = ops])
  case (Nil f st)
  show ?case by simp
next
  case (Stop a rest f st)
  then show ?case by (simp add: scan_loop_Stop)
next
  case (Busy a rest f st)
  then show ?case by (simp add: scan_acts_Busy) (simp add: scan_loop_Busy)
next
  case (Done a rest f st)
  then show ?case using returned_block [of f "snd (mutex_trylock a st)" ops r nr a]
    by (simp add: scan_acts_Done) (simp add: scan_loop_Done)
next
  case (More a rest f st)
  then show ?case using returned_block [of f "snd (mutex_trylock a st)" ops r nr a]
    by (simp add: scan_acts_More add.assoc [symmetric]) (simp add: scan_loop_More)
qed

subsection \<open>The steps of the walk\<close>

lemma trylocks_block [simp]:
  "filter is_trylock (new_actions st (snd (scan_sbi ops r nr a f st))) = []"
  by (simp add: scan_sbi_actions Let_def)

lemma scan_loop_steps:
  "length (filter is_trylock (new_actions st (snd (shrink_scan_loop ops r nr l f st))))
     \<le> length (filter (\<lambda>b. sbi_shrinker_run_no (sbis st b) \<noteq> r) l)"
proof (induction l f st rule: scan_loop_induct [where r = r and nr = nr and ops = ops])
  case (Nil f st)
  show ?case by simp
next
  case (Stop a rest f st)
  then show ?case by (simp add: scan_loop_Stop)
next
  case (Busy a rest f st)
  then show ?case by (simp add: scan_acts_Busy del: mutex_trylock_simps(5))
next
  case (Done a rest f st)
  then show ?case by (simp add: scan_acts_Done)
next
  case (More a rest f st)
  let ?m = "\<lambda>b. sbi_shrinker_run_no (sbis st b)"
  let ?x = "scan_sbi ops r nr a f (snd (mutex_trylock a st))"
  let ?p = "if rest = [] then [] else rest @ [a]"
  have eq: "(\<lambda>b. sbi_shrinker_run_no (sbis (snd ?x) b) \<noteq> r) = (\<lambda>b. b \<noteq> a \<and> ?m b \<noteq> r)"
    by (auto simp: fun_eq_iff run_no_scan_sbi)
  have "length (filter (\<lambda>b. sbi_shrinker_run_no (sbis (snd ?x) b) \<noteq> r) ?p)
          \<le> length (filter (\<lambda>b. ?m b \<noteq> r) rest)"
    unfolding eq using filter_stamp_le [of a ?m r rest] by simp
  with More(4) have "length (filter is_trylock (new_actions (snd ?x)
           (snd (shrink_scan_loop ops r nr ?p (fst ?x) (snd ?x)))))
          \<le> length (filter (\<lambda>b. ?m b \<noteq> r) rest)"
    by (rule order_trans)
  with More(1) show ?case by (simp add: scan_acts_More [OF More(1-3)])
qed

subsection \<open>The file systems a walk touches\<close>

lemma visits_simps [simp]:
  "\<not> visits b []"
  "visits b (e # es) \<longleftrightarrow> action_addr e = Some b \<or> visits b es"
  "visits b (xs @ ys) \<longleftrightarrow> visits b xs \<or> visits b ys"
  by (auto simp: visits_def)

lemma visits_block:
  "visits b (new_actions st (snd (scan_sbi ops r nr a f st))) \<Longrightarrow> b = a"
  by (simp add: scan_sbi_actions Let_def split: if_splits)

lemma scan_loop_visits:
  "visits b (new_actions st (snd (shrink_scan_loop ops r nr l f st))) \<Longrightarrow> b \<in> set l"
proof (induction l f st rule: scan_loop_induct [where r = r and nr = nr and ops = ops])
  case (Nil f st)
  then show ?case by simp
next
  case (Stop a rest f st)
  then show ?case by (simp add: scan_loop_Stop)
next
  case (Busy a rest f st)
  then show ?case by (auto simp: scan_acts_Busy)
next
  case (Done a rest f st)
  then show ?case by (auto simp: scan_acts_Done dest: visits_block)
next
  case (More a rest f st)
  from More(5) More(4) show ?case
    unfolding scan_acts_More [OF More(1-3)]
    by (auto dest: visits_block split: if_splits)
qed

lemma count_visits:
  "visits b (concat (map (\<lambda>a. if busy a then [Mutex_trylock a False]
                      else [Mutex_trylock a True, Spin_unlock, Spin_lock, Mutex_unlock a]) l))
     \<Longrightarrow> b \<in> set l"
  by (induction l) (auto split: if_splits)

subsection \<open>The run number on the nodes\<close>

lemma scan_sbi_run_no_other:
  "sbi_shrinker_run_no (sbis (snd (scan_sbi ops r nr a f (snd (mutex_trylock a st)))) b)
     = (if b = a then r else sbi_shrinker_run_no (sbis st b))"
  by (simp add: run_no_scan_sbi del: mutex_trylock_simps(5))

lemma acquired_block [simp]:
  "acquired (new_actions st (snd (scan_sbi ops r nr a f st))) = []"
  by (simp add: scan_sbi_actions Let_def)

lemma scan_loop_run_no:
  "sbi_shrinker_run_no (sbis (snd (shrink_scan_loop ops r nr l f st)) b) = r
   \<or> sbi_shrinker_run_no (sbis (snd (shrink_scan_loop ops r nr l f st)) b)
       = sbi_shrinker_run_no (sbis st b)"
proof (induction l f st rule: scan_loop_induct [where r = r and nr = nr and ops = ops])
  case (Nil f st)
  show ?case by simp
next
  case (Stop a rest f st)
  then show ?case by (simp add: scan_loop_Stop)
next
  case (Busy a rest f st)
  then show ?case by (simp add: scan_loop_Busy del: mutex_trylock_simps(5))
next
  case (Done a rest f st)
  then show ?case by (simp add: scan_loop_Done scan_sbi_run_no_other)
next
  case (More a rest f st)
  then show ?case unfolding scan_loop_More [OF More(1-3)] scan_sbi_run_no_other
    by (auto split: if_splits)
qed

lemma scan_loop_stamps:
  "b \<in> set (acquired (new_actions st (snd (shrink_scan_loop ops r nr l f st)))) \<Longrightarrow>
   sbi_shrinker_run_no (sbis (snd (shrink_scan_loop ops r nr l f st)) b) = r"
proof (induction l f st rule: scan_loop_induct [where r = r and nr = nr and ops = ops])
  case (Nil f st)
  then show ?case by simp
next
  case (Stop a rest f st)
  then show ?case by (simp add: scan_loop_Stop)
next
  case (Busy a rest f st)
  then show ?case by (simp add: scan_acts_Busy) (simp add: scan_loop_Busy)
next
  case (Done a rest f st)
  then show ?case by (simp add: scan_acts_Done) (simp add: scan_loop_Done)
next
  case (More a rest f st)
  let ?x = "scan_sbi ops r nr a f (snd (mutex_trylock a st))"
  let ?p = "if rest = [] then [] else rest @ [a]"
  from More(5) have "b = a \<or> b \<in> set (acquired (new_actions (snd ?x)
       (snd (shrink_scan_loop ops r nr ?p (fst ?x) (snd ?x)))))"
    by (simp add: scan_acts_More [OF More(1-3)])
  then show ?case
  proof
    assume "b = a"
    with scan_loop_run_no [of ops r nr ?p "fst ?x" "snd ?x" a]
    show ?thesis unfolding scan_loop_More [OF More(1-3)] by simp
  next
    assume "b \<in> set (acquired (new_actions (snd ?x)
       (snd (shrink_scan_loop ops r nr ?p (fst ?x) (snd ?x)))))"
    then show ?thesis unfolding scan_loop_More [OF More(1-3)] by (rule More(4))
  qed
qed

lemma scan_loop_counter [simp]:
  "shrinker_run_no (snd (shrink_scan_loop ops r nr l f st)) = shrinker_run_no st"
proof (induction l f st rule: scan_loop_induct [where r = r and nr = nr and ops = ops])
  case (Nil f st)
  show ?case by simp
next
  case (Stop a rest f st)
  then show ?case by (simp add: scan_loop_Stop)
next
  case (Busy a rest f st)
  then show ?case by (simp add: scan_loop_Busy)
next
  case (Done a rest f st)
  then show ?case by (simp add: scan_loop_Done)
next
  case (More a rest f st)
  then show ?case by (simp add: scan_loop_More)
qed

lemma shrink_scan_counter:
  "shrinker_run_no (snd (f3fs_shrink_scan ops nr st)) = next_run_no (shrinker_run_no st)"
  by (simp add: f3fs_shrink_scan_def Let_def)

subsection \<open>A walk past held mutexes\<close>

lemma trylock_held:
  "sbi_umount_mutex (sbis st b) \<Longrightarrow>
   snd (mutex_trylock b st) = st\<lparr>trace := trace st @ [Mutex_trylock b False]\<rparr>"
  by (simp add: mutex_trylock_def log_action_def)

lemma scan_loop_held_prefix:
  "\<forall>b\<in>set pre. sbi_umount_mutex (sbis st b) \<and> sbi_shrinker_run_no (sbis st b) \<noteq> r \<Longrightarrow>
   shrink_scan_loop ops r nr (pre @ l) f st
     = shrink_scan_loop ops r nr l f (st\<lparr>trace := trace st @ map (\<lambda>b. Mutex_trylock b False) pre\<rparr>)"
proof (induction pre arbitrary: st)
  case Nil
  show ?case by simp
next
  case (Cons b pre)
  let ?st = "st\<lparr>trace := trace st @ [Mutex_trylock b False]\<rparr>"
  from Cons.prems have b: "sbi_umount_mutex (sbis st b)" "sbi_shrinker_run_no (sbis st b) \<noteq> r"
    by simp_all
  then have "shrink_scan_loop ops r nr ((b # pre) @ l) f st = shrink_scan_loop ops r nr (pre @ l) f ?st"
    by (simp add: scan_loop_Busy trylock_held del: mutex_trylock_simps)
  also have "\<dots> = shrink_scan_loop ops r nr l f
                     (?st\<lparr>trace := trace ?st @ map (\<lambda>b. Mutex_trylock b False) pre\<rparr>)"
    using Cons.prems by (intro Cons.IH) simp
  finally show ?case by simp
qed

text \<open>The body of the walk for the target zero.\<close>

lemma scan_sbi_zero:
  "fst (scan_sbi ops r 0 a 0 st) = fst (f3fs_shrink_extent_tree ops (caches (sbis st a)) 0)"
  "new_actions st (snd (scan_sbi ops r 0 a 0 st)) =
     [Spin_unlock, Shrink_extent_tree a 0 (fst (f3fs_shrink_extent_tree ops (caches (sbis st a)) 0)),
      Spin_lock, List_move_tail a, Mutex_unlock a]"
  by (simp_all add: scan_sbi_freed scan_sbi_actions Let_def)

subsection \<open>The order of the list\<close>

lemma gate_block [simp]:
  "filter gate_or_move (new_actions st (snd (scan_sbi ops r nr a f st)))
     = [List_move_tail a, Mutex_unlock a]"
  by (simp add: scan_sbi_actions Let_def)

lemma scan_loop_gate:
  "filter gate_or_move (new_actions st (snd (shrink_scan_loop ops r nr l f st)))
     = concat (map (\<lambda>a. [Mutex_trylock a True, List_move_tail a, Mutex_unlock a])
         (acquired (new_actions st (snd (shrink_scan_loop ops r nr l f st)))))"
proof (induction l f st rule: scan_loop_induct [where r = r and nr = nr and ops = ops])
  case (Nil f st)
  show ?case by simp
next
  case (Stop a rest f st)
  then show ?case by (simp add: scan_loop_Stop)
next
  case (Busy a rest f st)
  then show ?case by (simp add: scan_acts_Busy)
next
  case (Done a rest f st)
  then show ?case by (simp add: scan_acts_Done)
next
  case (More a rest f st)
  then show ?case by (simp add: scan_acts_More)
qed

lemma scan_loop_list:
  "f3fs_list (snd (shrink_scan_loop ops r nr l f st))
     = foldl (\<lambda>l a. removeAll a l @ [a]) (f3fs_list st)
         (acquired (new_actions st (snd (shrink_scan_loop ops r nr l f st))))"
proof (induction l f st rule: scan_loop_induct [where r = r and nr = nr and ops = ops])
  case (Nil f st)
  show ?case by simp
next
  case (Stop a rest f st)
  then show ?case by (simp add: scan_loop_Stop)
next
  case (Busy a rest f st)
  then show ?case by (simp add: scan_acts_Busy) (simp add: scan_loop_Busy)
next
  case (Done a rest f st)
  then show ?case by (simp add: scan_acts_Done) (simp add: scan_loop_Done)
next
  case (More a rest f st)
  then show ?case
    by (simp add: scan_acts_More split del: if_split) (simp add: scan_loop_More split del: if_split)
qed

lemma word_one_le: "(1 \<le> (x::ulong)) = (x \<noteq> 0)"
  using word_less_1 [of x] by (auto simp: not_less [symmetric] simp del: word_less_1)

lemma frees_one_scan:
  "frees_one ops (caches (sbis st a)) \<Longrightarrow> 1 \<le> fst (scan_sbi ops r 1 a 0 st)"
  by (simp add: frees_one_def scan_sbi_freed Let_def word_one_le split: if_splits)

text \<open>One scan for one object, the head of the list being free, fresh and not empty.\<close>

lemma scan_head:
  assumes l: "f3fs_list st = a # rest"
    and free: "\<not> sbi_umount_mutex (sbis st a)"
    and stale: "sbi_shrinker_run_no (sbis st a) \<noteq> next_run_no (shrinker_run_no st)"
    and one: "frees_one ops (caches (sbis st a))"
    and once: "a \<notin> set rest"
  shows "acquired (new_actions st (snd (f3fs_shrink_scan ops 1 st))) = [a]"
    and "f3fs_list (snd (f3fs_shrink_scan ops 1 st)) = rest @ [a]"
    and "b \<noteq> a \<Longrightarrow> sbis (snd (f3fs_shrink_scan ops 1 st)) b = sbis st b"
proof -
  let ?r = "next_run_no (shrinker_run_no st)"
  let ?st2 = "(spin_lock st)\<lparr>shrinker_run_no := ?r\<rparr>"
  let ?x = "scan_sbi ops ?r 1 a 0 (snd (mutex_trylock a ?st2))"
  have le: "1 \<le> fst ?x" using one by (intro frees_one_scan) simp
  have c: "sbi_shrinker_run_no (sbis ?st2 a) \<noteq> ?r" "\<not> sbi_umount_mutex (sbis ?st2 a)"
    using free stale by simp_all
  have loop: "shrink_scan_loop ops ?r 1 (f3fs_list st) 0 ?st2 = ?x"
    unfolding l using c le by (rule scan_loop_Done)
  have "new_actions ?st2 (snd (shrink_scan_loop ops ?r 1 (f3fs_list st) 0 ?st2))
          = Mutex_trylock a True # new_actions (snd (mutex_trylock a ?st2)) (snd ?x)"
    unfolding l using c le by (rule scan_acts_Done)
  then show "acquired (new_actions st (snd (f3fs_shrink_scan ops 1 st))) = [a]"
    by (simp add: shrink_scan_actions Let_def)
  have "f3fs_list (snd (f3fs_shrink_scan ops 1 st)) = removeAll a (a # rest) @ [a]"
    using loop by (simp add: f3fs_shrink_scan_def Let_def l)
  then show "f3fs_list (snd (f3fs_shrink_scan ops 1 st)) = rest @ [a]"
    using once by simp
  show "sbis (snd (f3fs_shrink_scan ops 1 st)) b = sbis st b" if "b \<noteq> a"
    using loop that by (simp add: f3fs_shrink_scan_def Let_def scan_sbi_other)
qed

lemma shrink_scan_extends [simp]: "extends st (snd (f3fs_shrink_scan ops nr st))"
proof -
  let ?st2 = "(spin_lock st)\<lparr>shrinker_run_no := next_run_no (shrinker_run_no st)\<rparr>"
  let ?r = "shrink_scan_loop ops (next_run_no (shrinker_run_no st)) nr (f3fs_list st) 0 ?st2"
  have "extends st ?st2" by (rule extendsI) simp
  moreover have "extends ?st2 (snd ?r)" by simp
  moreover have "extends (snd ?r) (spin_unlock (snd ?r))" by (rule extendsI) simp
  ultimately have "extends st (spin_unlock (snd ?r))" by (blast intro: extends_trans)
  then show ?thesis by (simp add: f3fs_shrink_scan_def Let_def)
qed

lemma scans_extends [simp]: "extends st (scans ops nr k st)"
proof (induction k arbitrary: st)
  case 0
  show ?case by simp
next
  case (Suc k)
  have "extends (snd (f3fs_shrink_scan ops nr st)) (scans ops nr k (snd (f3fs_shrink_scan ops nr st)))"
    by (rule Suc)
  with shrink_scan_extends [of st ops nr]
  have "extends st (scans ops nr k (snd (f3fs_shrink_scan ops nr st)))" by (rule extends_trans)
  then show ?case by simp
qed

subsection \<open>The nodes a walk tries\<close>

lemma tried_append [simp]: "tried (xs @ ys) = tried xs @ tried ys"
  by (induction xs rule: tried.induct) simp_all

lemma tried_block [simp]: "tried (new_actions st (snd (scan_sbi ops r nr a f st))) = []"
  by (simp add: scan_sbi_actions Let_def)

lemma tried_length: "length (tried es) = length (filter is_trylock es)"
  by (induction es rule: tried.induct) simp_all

lemma scan_loop_cycle:
  "\<forall>xs ys. l = xs @ ys \<longrightarrow> distinct xs \<longrightarrow> (\<forall>b\<in>set xs. sbi_shrinker_run_no (sbis st b) \<noteq> r)
      \<longrightarrow> (ys = [] \<or> sbi_shrinker_run_no (sbis st (hd ys)) = r)
      \<longrightarrow> tried (new_actions st (snd (shrink_scan_loop ops r nr l f st)))
            = take (length (tried (new_actions st (snd (shrink_scan_loop ops r nr l f st))))) xs
          \<and> (fst (shrink_scan_loop ops r nr l f st) < nr
               \<longrightarrow> tried (new_actions st (snd (shrink_scan_loop ops r nr l f st))) = xs)"
proof (induction l f st rule: scan_loop_induct [where r = r and nr = nr and ops = ops])
  case (Nil f st)
  show ?case by simp
next
  case (Stop a rest f st)
  show ?case
  proof (intro allI impI)
    fix xs ys
    assume l: "a # rest = xs @ ys" and fresh: "\<forall>b\<in>set xs. sbi_shrinker_run_no (sbis st b) \<noteq> r"
    have "xs = []"
    proof (cases xs)
      case (Cons b xs')
      with l have "b = a" by simp
      with Cons fresh Stop show ?thesis by simp
    qed simp
    then show "tried (new_actions st (snd (shrink_scan_loop ops r nr (a # rest) f st)))
            = take (length (tried (new_actions st (snd (shrink_scan_loop ops r nr (a # rest) f st))))) xs
          \<and> (fst (shrink_scan_loop ops r nr (a # rest) f st) < nr
               \<longrightarrow> tried (new_actions st (snd (shrink_scan_loop ops r nr (a # rest) f st))) = xs)"
      using Stop by (simp add: scan_loop_Stop)
  qed
next
  case (Busy a rest f st)
  let ?st = "snd (mutex_trylock a st)"
  show ?case
  proof (intro allI impI)
    fix xs ys
    assume l: "a # rest = xs @ ys" and d: "distinct xs"
      and fresh: "\<forall>b\<in>set xs. sbi_shrinker_run_no (sbis st b) \<noteq> r"
      and stop: "ys = [] \<or> sbi_shrinker_run_no (sbis st (hd ys)) = r"
    obtain xs' where xs: "xs = a # xs'" and rest: "rest = xs' @ ys"
    proof (cases xs)
      case Nil
      with l stop Busy(1) show ?thesis by auto
    next
      case (Cons b xs')
      with l that show ?thesis by simp
    qed
    have "tried (new_actions ?st (snd (shrink_scan_loop ops r nr rest f ?st)))
            = take (length (tried (new_actions ?st (snd (shrink_scan_loop ops r nr rest f ?st))))) xs'
          \<and> (fst (shrink_scan_loop ops r nr rest f ?st) < nr
               \<longrightarrow> tried (new_actions ?st (snd (shrink_scan_loop ops r nr rest f ?st))) = xs')"
    proof -
      have d': "distinct xs'" using d xs by simp
      have fresh': "\<forall>b\<in>set xs'. sbi_shrinker_run_no (sbis ?st b) \<noteq> r"
        using fresh xs by (simp del: mutex_trylock_simps(5))
      have stop': "ys = [] \<or> sbi_shrinker_run_no (sbis ?st (hd ys)) = r"
        using stop by (simp del: mutex_trylock_simps(5))
      from Busy(3) rest d' fresh' stop' show ?thesis by blast
    qed
    then show "tried (new_actions st (snd (shrink_scan_loop ops r nr (a # rest) f st)))
            = take (length (tried (new_actions st (snd (shrink_scan_loop ops r nr (a # rest) f st))))) xs
          \<and> (fst (shrink_scan_loop ops r nr (a # rest) f st) < nr
               \<longrightarrow> tried (new_actions st (snd (shrink_scan_loop ops r nr (a # rest) f st))) = xs)"
      by (simp add: scan_acts_Busy [OF Busy(1,2)]
          scan_loop_Busy [OF Busy(1,2), THEN arg_cong [of _ _ fst]] xs)
  qed
next
  case (Done a rest f st)
  show ?case
  proof (intro allI impI)
    fix xs ys
    assume l: "a # rest = xs @ ys"
      and stop: "ys = [] \<or> sbi_shrinker_run_no (sbis st (hd ys)) = r"
    obtain xs' where xs: "xs = a # xs'"
    proof (cases xs)
      case Nil
      with l stop Done(1) show ?thesis by auto
    next
      case (Cons b xs')
      with l that show ?thesis by simp
    qed
    show "tried (new_actions st (snd (shrink_scan_loop ops r nr (a # rest) f st)))
            = take (length (tried (new_actions st (snd (shrink_scan_loop ops r nr (a # rest) f st))))) xs
          \<and> (fst (shrink_scan_loop ops r nr (a # rest) f st) < nr
               \<longrightarrow> tried (new_actions st (snd (shrink_scan_loop ops r nr (a # rest) f st))) = xs)"
    proof -
      from Done(3) have "\<not> fst (scan_sbi ops r nr a f (snd (mutex_trylock a st))) < nr"
        by (simp only: not_less)
      then show ?thesis
        by (simp add: scan_acts_Done [OF Done(1-3)]
            scan_loop_Done [OF Done(1-3), THEN arg_cong [of _ _ fst]] xs)
    qed
  qed
next
  case (More a rest f st)
  let ?x = "scan_sbi ops r nr a f (snd (mutex_trylock a st))"
  let ?p = "if rest = [] then [] else rest @ [a]"
  show ?case
  proof (intro allI impI)
    fix xs ys
    assume l: "a # rest = xs @ ys" and d: "distinct xs"
      and fresh: "\<forall>b\<in>set xs. sbi_shrinker_run_no (sbis st b) \<noteq> r"
      and stop: "ys = [] \<or> sbi_shrinker_run_no (sbis st (hd ys)) = r"
    obtain xs' where xs: "xs = a # xs'" and rest: "rest = xs' @ ys"
    proof (cases xs)
      case Nil
      with l stop More(1) show ?thesis by auto
    next
      case (Cons b xs')
      with l that show ?thesis by simp
    qed
    have later: "tried (new_actions (snd ?x) (snd (shrink_scan_loop ops r nr ?p (fst ?x) (snd ?x))))
            = take (length (tried (new_actions (snd ?x) (snd (shrink_scan_loop ops r nr ?p (fst ?x) (snd ?x)))))) xs'
          \<and> (fst (shrink_scan_loop ops r nr ?p (fst ?x) (snd ?x)) < nr
               \<longrightarrow> tried (new_actions (snd ?x) (snd (shrink_scan_loop ops r nr ?p (fst ?x) (snd ?x)))) = xs')"
    proof (cases "rest = []")
      case True
      with rest show ?thesis by simp
    next
      case False
      have p: "?p = xs' @ (ys @ [a])" using False rest by simp
      have d': "distinct xs'" using d xs by simp
      have fresh': "\<forall>b\<in>set xs'. sbi_shrinker_run_no (sbis (snd ?x) b) \<noteq> r"
        using fresh d xs by (auto simp: scan_sbi_run_no_other)
      have stop': "ys @ [a] = [] \<or> sbi_shrinker_run_no (sbis (snd ?x) (hd (ys @ [a]))) = r"
        using stop by (cases ys) (auto simp: scan_sbi_run_no_other)
      from More(4) p d' fresh' stop' show ?thesis by blast
    qed
    show "tried (new_actions st (snd (shrink_scan_loop ops r nr (a # rest) f st)))
            = take (length (tried (new_actions st (snd (shrink_scan_loop ops r nr (a # rest) f st))))) xs
          \<and> (fst (shrink_scan_loop ops r nr (a # rest) f st) < nr
               \<longrightarrow> tried (new_actions st (snd (shrink_scan_loop ops r nr (a # rest) f st))) = xs)"
      using later
      by (simp add: scan_acts_More [OF More(1-3)]
          scan_loop_More [OF More(1-3), THEN arg_cong [of _ _ fst]] xs split del: if_split)
  qed
qed


lemma shrink_scan_cycle:
  assumes "distinct (f3fs_list st)"
  shows "tried (new_actions st (snd (f3fs_shrink_scan ops nr st)))
           = take (length (tried (new_actions st (snd (f3fs_shrink_scan ops nr st)))))
               (takeWhile (\<lambda>b. sbi_shrinker_run_no (sbis st b) \<noteq> next_run_no (shrinker_run_no st))
                  (f3fs_list st))
       \<and> (fst (f3fs_shrink_scan ops nr st) < nr
            \<longrightarrow> tried (new_actions st (snd (f3fs_shrink_scan ops nr st)))
                = takeWhile (\<lambda>b. sbi_shrinker_run_no (sbis st b) \<noteq> next_run_no (shrinker_run_no st))
                    (f3fs_list st))"
proof -
  let ?r = "next_run_no (shrinker_run_no st)"
  let ?st2 = "(spin_lock st)\<lparr>shrinker_run_no := ?r\<rparr>"
  let ?P = "\<lambda>b. sbi_shrinker_run_no (sbis st b) \<noteq> ?r"
  let ?xs = "takeWhile ?P (f3fs_list st)" and ?ys = "dropWhile ?P (f3fs_list st)"
  let ?loop = "shrink_scan_loop ops ?r nr (f3fs_list st) 0 ?st2"
  have 1: "f3fs_list st = ?xs @ ?ys" by simp
  have 2: "distinct ?xs" using assms by (rule distinct_takeWhile)
  have 3: "\<forall>b\<in>set ?xs. sbi_shrinker_run_no (sbis ?st2 b) \<noteq> ?r"
    by (auto dest: set_takeWhileD)
  have 4: "?ys = [] \<or> sbi_shrinker_run_no (sbis ?st2 (hd ?ys)) = ?r"
    using hd_dropWhile [of ?P "f3fs_list st"] by auto
  from scan_loop_cycle [of "f3fs_list st" ?st2 ?r ops nr 0] 1 2 3 4
  have "tried (new_actions ?st2 (snd ?loop)) = take (length (tried (new_actions ?st2 (snd ?loop)))) ?xs
      \<and> (fst ?loop < nr \<longrightarrow> tried (new_actions ?st2 (snd ?loop)) = ?xs)" by blast
  then show ?thesis by (simp add: shrink_scan_actions shrink_scan_freed Let_def)
qed

subsection \<open>Run numbers to come\<close>

lemma run_ids_nonzero: "0 \<notin> set (run_ids c n)"
  by (induction n arbitrary: c) (simp_all add: next_run_no_nonzero [symmetric])

lemma run_ids_mono: "n \<le> m \<Longrightarrow> set (run_ids c n) \<subseteq> set (run_ids c m)"
proof (induction n arbitrary: c m)
  case 0
  show ?case by simp
next
  case (Suc n)
  then obtain m' where m: "m = Suc m'" by (cases m) auto
  with Suc.prems have "n \<le> m'" by simp
  then have "set (run_ids (next_run_no c) n) \<subseteq> set (run_ids (next_run_no c) m')" by (rule Suc.IH)
  then show ?case by (auto simp: m)
qed

lemma run_ids_next: "set (run_ids (next_run_no c) n) \<subseteq> set (run_ids c (Suc n))"
  by auto

lemma unat_uint_bound: "unat (c::uint) < 4294967296"
  using unsigned_less [of c, where 'a = nat] by simp

lemma unat_next_run_no:
  assumes "c \<noteq> 0"
  shows "unat (next_run_no c) - 1 = unat c mod 4294967295"
proof (cases "c = - 1")
  case True
  have "unat (- 1 :: uint) = 4294967295"
    by (simp add: unsigned_minus_1_eq_mask mask_eq_exp_minus_1)
  with True show ?thesis by (simp add: next_run_no_eq)
next
  case False
  have "unat (- 1 :: uint) = 4294967295"
    by (simp add: unsigned_minus_1_eq_mask mask_eq_exp_minus_1)
  with False have "unat c \<noteq> 4294967295" 
    by (metis word_unat_eq_iff)
  moreover have "unat c < 4294967296" by (rule unat_uint_bound)
  ultimately have lt: "unat c < 4294967295" by linarith
  then have "unat c + unat (1::uint) < 2 ^ LENGTH(32)" by simp
  then have "unat (c + 1) = unat c + unat (1::uint)" by (rule unat_add_lem [THEN iffD1])
  then have "unat (c + 1) = unat c + 1" by simp
  with False lt show ?thesis by (simp add: next_run_no_eq)
qed

lemma run_ids_rank:
  "c \<noteq> 0 \<Longrightarrow> x \<in> set (run_ids c n) \<Longrightarrow>
   \<exists>i. 1 \<le> i \<and> i \<le> n \<and> unat x - 1 = (unat c - 1 + i) mod 4294967295"
proof (induction n arbitrary: c)
  case 0
  then show ?case by simp
next
  case (Suc n)
  have c: "1 \<le> unat c" using Suc.prems(1) by (simp add: unat_gt_0 Suc_le_eq)
  from Suc.prems(2) consider "x = next_run_no c" | "x \<in> set (run_ids (next_run_no c) n)" by auto
  then show ?case
  proof cases
    case 1
    then have "unat x - 1 = (unat c - 1 + 1) mod 4294967295"
      using unat_next_run_no [OF Suc.prems(1)] c by simp
    then show ?thesis by (intro exI [of _ 1]) simp
  next
    case 2
    from Suc.IH [OF next_run_no_nonzero 2]
    obtain i where i: "1 \<le> i" "i \<le> n"
      "unat x - 1 = (unat (next_run_no c) - 1 + i) mod 4294967295" by blast
    have "unat x - 1 = (unat c mod 4294967295 + i) mod 4294967295"
      using i(3) unat_next_run_no [OF Suc.prems(1)] by simp
    also have "\<dots> = (unat c + i) mod 4294967295" by (rule mod_add_left_eq)
    also have "unat c + i = unat c - 1 + Suc i" using c by simp
    finally show ?thesis using i by (intro exI [of _ "Suc i"]) simp
  qed
qed

lemma run_ids_self:
  assumes "c \<noteq> 0" "n < 4294967295"
  shows "c \<notin> set (run_ids c n)"
proof
  assume "c \<in> set (run_ids c n)"
  with assms(1) obtain i where i: "1 \<le> i" "i \<le> n"
    "unat c - 1 = (unat c - 1 + i) mod 4294967295"
    using run_ids_rank by blast
  let ?u = "unat c - 1"
  have u: "?u < 4294967295" using unat_uint_bound [of c] assms(1) unat_gt_0 [of c] by linarith
  show False
  proof (cases "?u + i < 4294967295")
    case True
    with i show ?thesis by simp
  next
    case False
    then have "(?u + i) mod 4294967295 = (?u + i - 4294967295) mod 4294967295"
      by (simp add: le_mod_geq)
    also have "\<dots> = ?u + i - 4294967295" using u i(2) assms(2) by (intro mod_less) linarith
    finally show ?thesis using i False assms(2) by linarith
  qed
qed


subsection \<open>What a scan leaves alone\<close>

lemma scan_sbi_gate:
  "\<not> sbi_umount_mutex (sbis st a) \<Longrightarrow>
   sbi_umount_mutex (sbis (snd (scan_sbi ops r nr a f (snd (mutex_trylock a st)))) b)
     = sbi_umount_mutex (sbis st b)"
  by (cases "b = a") (simp_all add: scan_sbi_other)

lemma scan_sbi_untouched:
  "b \<noteq> a \<Longrightarrow> sbis (snd (scan_sbi ops r nr a f (snd (mutex_trylock a st)))) b = sbis st b"
  by (simp add: scan_sbi_other)

lemma scan_loop_gates:
  "sbi_umount_mutex (sbis (snd (shrink_scan_loop ops r nr l f st)) b) = sbi_umount_mutex (sbis st b)"
proof (induction l f st rule: scan_loop_induct [where r = r and nr = nr and ops = ops])
  case (Nil f st)
  show ?case by simp
next
  case (Stop a rest f st)
  then show ?case by (simp add: scan_loop_Stop)
next
  case (Busy a rest f st)
  then show ?case by (simp add: scan_loop_Busy trylock_held del: mutex_trylock_simps)
next
  case (Done a rest f st)
  then show ?case by (simp add: scan_loop_Done scan_sbi_gate del: mutex_trylock_simps)
next
  case (More a rest f st)
  then show ?case
    by (simp add: scan_loop_More scan_sbi_gate split del: if_split del: mutex_trylock_simps)
qed

lemma trylock_held_sbis: "sbi_umount_mutex (sbis st a) \<Longrightarrow> sbis (snd (mutex_trylock a st)) = sbis st"
  by (simp add: trylock_held del: mutex_trylock_simps)

lemma scan_loop_untouched:
  "b \<notin> set (acquired (new_actions st (snd (shrink_scan_loop ops r nr l f st)))) \<Longrightarrow>
   sbis (snd (shrink_scan_loop ops r nr l f st)) b = sbis st b"
proof (induction l f st rule: scan_loop_induct [where r = r and nr = nr and ops = ops])
  case (Nil f st)
  show ?case by simp
next
  case (Stop a rest f st)
  then show ?case by (simp add: scan_loop_Stop)
next
  case (Busy a rest f st)
  let ?s1 = "snd (mutex_trylock a st)"
  from Busy.prems Busy.hyps
  have "b \<notin> set (acquired (new_actions ?s1 (snd (shrink_scan_loop ops r nr rest f ?s1))))"
    by (simp add: scan_acts_Busy del: mutex_trylock_simps)
  then have "sbis (snd (shrink_scan_loop ops r nr rest f ?s1)) b = sbis ?s1 b"
    by (rule Busy.IH)
  then show ?case
    by (simp only: scan_loop_Busy [OF Busy.hyps] trylock_held_sbis [OF Busy.hyps(2)])
next
  case (Done a rest f st)
  let ?s1 = "snd (mutex_trylock a st)"
  from Done.prems Done.hyps have "b \<noteq> a"
    by (auto simp add: scan_acts_Done simp del: mutex_trylock_simps)
  then have "sbis (snd (scan_sbi ops r nr a f ?s1)) b = sbis st b"
    by (rule scan_sbi_untouched)
  then show ?case by (simp only: scan_loop_Done [OF Done.hyps])
next
  case (More a rest f st)
  let ?s1 = "snd (mutex_trylock a st)"
  let ?x = "scan_sbi ops r nr a f ?s1"
  let ?l = "if rest = [] then [] else rest @ [a]"
  from More.prems More.hyps have ba: "b \<noteq> a"
    and n: "b \<notin> set (acquired (new_actions (snd ?x) (snd (shrink_scan_loop ops r nr ?l (fst ?x) (snd ?x)))))"
    by (auto simp add: scan_acts_More simp del: mutex_trylock_simps split del: if_split)
  from n have "sbis (snd (shrink_scan_loop ops r nr ?l (fst ?x) (snd ?x))) b = sbis (snd ?x) b"
    by (rule More.IH)
  also have "\<dots> = sbis st b" using ba by (rule scan_sbi_untouched)
  finally show ?case by (simp only: scan_loop_More [OF More.hyps])
qed

lemma scan_loop_acquired_tried:
  "acquired (new_actions st (snd (shrink_scan_loop ops r nr l f st)))
     = filter (\<lambda>b. \<not> sbi_umount_mutex (sbis st b))
         (tried (new_actions st (snd (shrink_scan_loop ops r nr l f st))))"
proof (induction l f st rule: scan_loop_induct [where r = r and nr = nr and ops = ops])
  case (Nil f st)
  show ?case by simp
next
  case (Stop a rest f st)
  then show ?case by (simp add: scan_loop_Stop)
next
  case (Busy a rest f st)
  then show ?case by (simp add: scan_acts_Busy trylock_held del: mutex_trylock_simps)
next
  case (Done a rest f st)
  then show ?case by (simp add: scan_acts_Done)
next
  case (More a rest f st)
  then show ?case
    by (simp add: scan_acts_More scan_sbi_gate split del: if_split del: mutex_trylock_simps)
qed

lemma rotate_by_moves:
  "distinct l \<Longrightarrow> k \<le> length l \<Longrightarrow>
   foldl (\<lambda>l a. removeAll a l @ [a]) l (take k l) = drop k l @ take k l"
proof (induction k)
  case 0
  show ?case by simp
next
  case (Suc k)
  then have k: "k < length l" by simp
  have d: "l ! k \<notin> set (drop (Suc k) l)" "l ! k \<notin> set (take k l)"
    using Suc.prems(1) k
    by (metis Cons_nth_drop_Suc distinct.simps(2) distinct_drop,
        metis append_take_drop_id distinct_append Cons_nth_drop_Suc disjoint_iff list.set_intros(1))
  have "foldl (\<lambda>l a. removeAll a l @ [a]) l (take (Suc k) l)
          = removeAll (l ! k) (drop k l @ take k l) @ [l ! k]"
    using Suc k by (simp add: take_Suc_conv_app_nth)
  also have "drop k l = l ! k # drop (Suc k) l" using k by (simp add: Cons_nth_drop_Suc)
  finally show ?case using d k by (simp add: take_Suc_conv_app_nth)
qed


subsection \<open>Quiet histories\<close>

lemma aged_nth:
  "aged m c n l = (\<forall>i<length l. m (l ! i) \<notin> set (run_ids c (Suc (n + i))))"
proof (induction l arbitrary: n)
  case Nil
  show ?case by simp
next
  case (Cons b l)
  show ?case unfolding aged.simps Cons by (simp only: length_Cons All_less_Suc2) simp
qed

lemma aged_less: "aged m c (Suc n) l \<Longrightarrow> aged m c n l"
  unfolding aged_nth using run_ids_mono [of "Suc (n + i)" "Suc (Suc n + i)" c for i] by auto

lemma aged_removeAll: "aged m c n l \<Longrightarrow> aged m c n (removeAll a l)"
  by (induction l arbitrary: n) (auto intro: aged_less)

subsection \<open>A scan of a registry in turn\<close>

lemma scan_loop_tried_head:
  assumes "sbi_shrinker_run_no (sbis st a) \<noteq> r"
  shows "tried (new_actions st (snd (shrink_scan_loop ops r nr (a # rest) f st))) \<noteq> []"
proof (cases "sbi_umount_mutex (sbis st a)")
  case True
  with assms show ?thesis by (simp add: scan_acts_Busy)
next
  case False
  show ?thesis
  proof (cases "nr \<le> fst (scan_sbi ops r nr a f (snd (mutex_trylock a st)))")
    case True
    with assms False show ?thesis by (simp add: scan_acts_Done)
  next
    case False
    with assms \<open>\<not> sbi_umount_mutex (sbis st a)\<close> show ?thesis by (simp add: scan_acts_More)
  qed
qed

lemma shrink_scan_state:
  "snd (f3fs_shrink_scan ops nr st) =
     spin_unlock (snd (shrink_scan_loop ops (next_run_no (shrinker_run_no st)) nr (f3fs_list st) 0
        ((spin_lock st)\<lparr>shrinker_run_no := next_run_no (shrinker_run_no st)\<rparr>)))"
  by (simp add: f3fs_shrink_scan_def Let_def)

lemma shrink_scan_acquired:
  "acquired (new_actions st (snd (f3fs_shrink_scan ops nr st)))
     = filter (\<lambda>b. \<not> sbi_umount_mutex (sbis st b))
         (tried (new_actions st (snd (f3fs_shrink_scan ops nr st))))"
  using scan_loop_acquired_tried [of "(spin_lock st)\<lparr>shrinker_run_no := next_run_no (shrinker_run_no st)\<rparr>"
      ops "next_run_no (shrinker_run_no st)" nr "f3fs_list st" 0]
  by (simp add: shrink_scan_actions Let_def)

lemma shrink_scan_gates:
  "sbi_umount_mutex (sbis (snd (f3fs_shrink_scan ops nr st)) b) = sbi_umount_mutex (sbis st b)"
  by (simp add: shrink_scan_state scan_loop_gates)

lemma shrink_scan_untouched:
  assumes "b \<notin> set (acquired (new_actions st (snd (f3fs_shrink_scan ops nr st))))"
  shows "sbis (snd (f3fs_shrink_scan ops nr st)) b = sbis st b"
proof -
  let ?st2 = "(spin_lock st)\<lparr>shrinker_run_no := next_run_no (shrinker_run_no st)\<rparr>"
  from assms have "b \<notin> set (acquired (new_actions ?st2
      (snd (shrink_scan_loop ops (next_run_no (shrinker_run_no st)) nr (f3fs_list st) 0 ?st2))))"
    by (simp add: shrink_scan_actions Let_def)
  then have "sbis (snd (shrink_scan_loop ops (next_run_no (shrinker_run_no st)) nr (f3fs_list st) 0 ?st2)) b
      = sbis ?st2 b"
    by (rule scan_loop_untouched)
  then show ?thesis by (simp add: shrink_scan_state)
qed

lemma shrink_scan_stamps:
  assumes "b \<in> set (acquired (new_actions st (snd (f3fs_shrink_scan ops nr st))))"
  shows "sbi_shrinker_run_no (sbis (snd (f3fs_shrink_scan ops nr st)) b) = next_run_no (shrinker_run_no st)"
proof -
  let ?st2 = "(spin_lock st)\<lparr>shrinker_run_no := next_run_no (shrinker_run_no st)\<rparr>"
  from assms have "b \<in> set (acquired (new_actions ?st2
      (snd (shrink_scan_loop ops (next_run_no (shrinker_run_no st)) nr (f3fs_list st) 0 ?st2))))"
    by (simp add: shrink_scan_actions Let_def)
  then have "sbi_shrinker_run_no (sbis (snd (shrink_scan_loop ops (next_run_no (shrinker_run_no st)) nr
      (f3fs_list st) 0 ?st2)) b) = next_run_no (shrinker_run_no st)"
    by (rule scan_loop_stamps)
  then show ?thesis by (simp add: shrink_scan_state)
qed

lemma shrink_scan_list:
  "f3fs_list (snd (f3fs_shrink_scan ops nr st))
     = foldl (\<lambda>l a. removeAll a l @ [a]) (f3fs_list st)
         (acquired (new_actions st (snd (f3fs_shrink_scan ops nr st))))"
proof -
  let ?st2 = "(spin_lock st)\<lparr>shrinker_run_no := next_run_no (shrinker_run_no st)\<rparr>"
  let ?r = "shrink_scan_loop ops (next_run_no (shrinker_run_no st)) nr (f3fs_list st) 0 ?st2"
  have "f3fs_list (snd ?r) = foldl (\<lambda>l a. removeAll a l @ [a]) (f3fs_list ?st2)
         (acquired (new_actions ?st2 (snd ?r)))"
    by (rule scan_loop_list)
  then show ?thesis
    by (simp add: shrink_scan_actions Let_def) (simp add: shrink_scan_state)
qed

lemma shrink_scan_tried_head:
  assumes "f3fs_list st = a # rest"
    and "sbi_shrinker_run_no (sbis st a) \<noteq> next_run_no (shrinker_run_no st)"
  shows "tried (new_actions st (snd (f3fs_shrink_scan ops nr st))) \<noteq> []"
  using scan_loop_tried_head [of "(spin_lock st)\<lparr>shrinker_run_no := next_run_no (shrinker_run_no st)\<rparr>"
      a "next_run_no (shrinker_run_no st)" ops nr rest 0] assms
  by (simp add: shrink_scan_actions Let_def)


lemma run_ids_head: "next_run_no c \<in> set (run_ids c (Suc n))"
  by simp

lemma in_turn_fresh:
  assumes "in_turn st" "b \<in> set (f3fs_list st)"
  shows "sbi_shrinker_run_no (sbis st b) \<noteq> next_run_no (shrinker_run_no st)"
proof -
  from assms(2) obtain i where i: "i < length (f3fs_list st)" "b = f3fs_list st ! i"
    by (auto simp: in_set_conv_nth)
  with assms(1) have "sbi_shrinker_run_no (sbis st b) \<notin> set (run_ids (shrinker_run_no st) (Suc i))"
    by (simp add: in_turn_def aged_nth)
  then show ?thesis using run_ids_head [of "shrinker_run_no st" i] by metis
qed

lemma in_turn_scan:
  assumes "in_turn st"
  shows "\<exists>m\<le>length (f3fs_list st).
           (f3fs_list st \<noteq> [] \<longrightarrow> 0 < m)
         \<and> acquired (new_actions st (snd (f3fs_shrink_scan ops nr st))) = take m (f3fs_list st)
         \<and> f3fs_list (snd (f3fs_shrink_scan ops nr st)) = drop m (f3fs_list st) @ take m (f3fs_list st)"
proof -
  let ?l = "f3fs_list st" and ?r = "next_run_no (shrinker_run_no st)"
  let ?acts = "new_actions st (snd (f3fs_shrink_scan ops nr st))"
  let ?m = "length (tried ?acts)"
  from assms have d: "distinct ?l" and free: "\<forall>b\<in>set ?l. \<not> sbi_umount_mutex (sbis st b)"
    by (simp_all add: in_turn_def list_all_iff)
  have "takeWhile (\<lambda>b. sbi_shrinker_run_no (sbis st b) \<noteq> ?r) ?l = ?l"
    using in_turn_fresh [OF assms] by (simp add: takeWhile_eq_all_conv)
  with shrink_scan_cycle [OF d, of ops nr] have t: "tried ?acts = take ?m ?l" by simp
  then have "length (take ?m ?l) = ?m" by simp
  then have le: "?m \<le> length ?l" by simp
  have "filter (\<lambda>b. \<not> sbi_umount_mutex (sbis st b)) (take ?m ?l) = take ?m ?l"
    using free by (auto simp: filter_id_conv dest: in_set_takeD)
  with t have a: "acquired ?acts = take ?m ?l" by (simp add: shrink_scan_acquired)
  have pos: "0 < ?m" if "?l \<noteq> []"
  proof -
    from that obtain b rest where l: "?l = b # rest" by (cases ?l) auto
    then have "b \<in> set ?l" by simp
    with assms have "sbi_shrinker_run_no (sbis st b) \<noteq> ?r" by (rule in_turn_fresh)
    with l have "tried ?acts \<noteq> []" by (rule shrink_scan_tried_head)
    then show ?thesis by simp
  qed
  have "f3fs_list (snd (f3fs_shrink_scan ops nr st)) = drop ?m ?l @ take ?m ?l"
    using rotate_by_moves [OF d le] by (simp add: shrink_scan_list a)
  with le pos a show ?thesis by blast
qed

lemma in_turn_preserved_scan:
  assumes "in_turn st"
  shows "in_turn (snd (f3fs_shrink_scan ops nr st))"
proof -
  let ?l = "f3fs_list st" and ?r = "next_run_no (shrinker_run_no st)"
  let ?st = "snd (f3fs_shrink_scan ops nr st)"
  let ?acts = "new_actions st ?st"
  from in_turn_scan [OF assms, of ops nr] obtain m where m: "m \<le> length ?l" "?l \<noteq> [] \<longrightarrow> 0 < m"
    and a: "acquired ?acts = take m ?l" and l': "f3fs_list ?st = drop m ?l @ take m ?l"
    by blast
  from assms have d: "distinct ?l" and len: "length ?l < 4294967295"
    and free: "\<forall>b\<in>set ?l. \<not> sbi_umount_mutex (sbis st b)"
    and old: "\<forall>i<length ?l. sbi_shrinker_run_no (sbis st (?l ! i)) \<notin> set (run_ids (shrinker_run_no st) (Suc i))"
    by (simp_all add: in_turn_def list_all_iff aged_nth)
  from d have "distinct (take m ?l @ drop m ?l)" by simp
  then have d': "distinct (drop m ?l @ take m ?l)" by (simp only: distinct_append) blast
  have set': "set (drop m ?l @ take m ?l) = set ?l"
    using set_append [of "take m ?l" "drop m ?l"] by (simp only: set_append append_take_drop_id) blast
  have new: "sbi_shrinker_run_no (sbis ?st ((drop m ?l @ take m ?l) ! i))
               \<notin> set (run_ids ?r (Suc i))" if i: "i < length ?l" for i
  proof (cases "i < length ?l - m")
    case True
    then have e: "(drop m ?l @ take m ?l) ! i = ?l ! (m + i)" by (simp add: nth_append)
    from True have mi: "m + i < length ?l" by simp
    have "?l ! (m + i) \<notin> set (take m ?l)"
    proof
      assume "?l ! (m + i) \<in> set (take m ?l)"
      then obtain j where j: "j < m" "?l ! j = ?l ! (m + i)"
        by (auto simp: in_set_conv_nth)
      with d mi m(1) have "j = m + i" by (simp add: nth_eq_iff_index_eq)
      with j(1) show False by simp
    qed
    then have "sbis ?st (?l ! (m + i)) = sbis st (?l ! (m + i))"
      by (intro shrink_scan_untouched) (simp add: a)
    moreover from old mi have "sbi_shrinker_run_no (sbis st (?l ! (m + i)))
        \<notin> set (run_ids (shrinker_run_no st) (Suc (m + i)))" by blast
    moreover have "0 < m" using m(2) i by auto
    then have "set (run_ids ?r (Suc i)) \<subseteq> set (run_ids (shrinker_run_no st) (Suc (m + i)))"
      using run_ids_next [of "shrinker_run_no st" "Suc i"]
        run_ids_mono [of "Suc (Suc i)" "Suc (m + i)" "shrinker_run_no st"] by auto
    ultimately show ?thesis unfolding e by auto
  next
    case False
    then have e: "(drop m ?l @ take m ?l) ! i = take m ?l ! (i - (length ?l - m))"
      by (simp add: nth_append)
    from False i m(1) have "i - (length ?l - m) < length (take m ?l)" by simp
    then have "(drop m ?l @ take m ?l) ! i \<in> set (acquired ?acts)"
      unfolding e a by (rule nth_mem)
    then have "sbi_shrinker_run_no (sbis ?st ((drop m ?l @ take m ?l) ! i)) = ?r"
      by (rule shrink_scan_stamps)
    moreover have "?r \<notin> set (run_ids ?r (Suc i))"
      using i len by (intro run_ids_self next_run_no_nonzero) simp
    ultimately show ?thesis by simp
  qed
  show ?thesis
    unfolding in_turn_def aged_nth list_all_iff l' shrink_scan_counter
    using d' len free new by (simp add: shrink_scan_gates set' del: set_append)
qed

lemma in_turn_preserved_count: "in_turn st \<Longrightarrow> in_turn (snd (f3fs_shrink_count M st))"
  by (simp add: in_turn_def f3fs_shrink_count_def Let_def count_loop_frame)

lemma in_turn_preserved_join:
  assumes "in_turn st" "a \<notin> set (f3fs_list st)" "sbi_shrinker_run_no (sbis st a) = 0"
    "\<not> sbi_umount_mutex (sbis st a)" "length (f3fs_list st) < 4294967294"
  shows "in_turn (f3fs_join_shrinker a st)"
proof -
  let ?l = "f3fs_list st"
  have "sbi_shrinker_run_no (sbis st ((?l @ [a]) ! i)) \<notin> set (run_ids (shrinker_run_no st) (Suc i))"
    if "i < Suc (length ?l)" for i
  proof (cases "i < length ?l")
    case True
    with assms(1) show ?thesis by (simp add: in_turn_def aged_nth nth_append)
  next
    case False
    with that have "(?l @ [a]) ! i = a" by (simp add: nth_append)
    then show ?thesis using assms(3) run_ids_nonzero [of "shrinker_run_no st" "Suc i"] by simp
  qed
  then show ?thesis using assms
    by (simp add: in_turn_def f3fs_join_shrinker_def aged_nth list_all_iff)
qed

lemma in_turn_preserved_leave: "in_turn st \<Longrightarrow> in_turn (f3fs_leave_shrinker ops a st)"
proof -
  assume t: "in_turn st"
  let ?st = "f3fs_leave_shrinker ops a st"
  have l: "f3fs_list ?st = removeAll a (f3fs_list st)" and c: "shrinker_run_no ?st = shrinker_run_no st"
    and g: "sbi_umount_mutex (sbis ?st b) = sbi_umount_mutex (sbis st b)"
    and r: "sbi_shrinker_run_no (sbis ?st b) = sbi_shrinker_run_no (sbis st b)" for b
    by (simp_all add: f3fs_leave_shrinker_def Let_def)
  have "length (removeAll a (f3fs_list st)) \<le> length (f3fs_list st)"
    by (simp add: removeAll_filter_not_eq)
  moreover from t have "length (f3fs_list st) < 4294967295" by (simp add: in_turn_def)
  ultimately have "length (removeAll a (f3fs_list st)) < 4294967295" by (rule le_less_trans)
  with t show ?thesis
    unfolding in_turn_def l c
    by (auto simp: g r list_all_iff distinct_removeAll intro: aged_removeAll)
qed

lemma in_turn_history: "quiet h st \<Longrightarrow> in_turn st \<Longrightarrow> in_turn (run_events h st)"
proof (induction h arbitrary: st)
  case Nil
  then show ?case by simp
next
  case (Cons e es)
  have "quiet es (step e st) \<and> in_turn (step e st)"
  proof (cases e)
    case (Join a)
    with Cons.prems show ?thesis by (simp add: in_turn_preserved_join)
  next
    case (Leave ops a)
    with Cons.prems show ?thesis by (simp add: in_turn_preserved_leave)
  next
    case (Count M)
    with Cons.prems show ?thesis by (simp add: in_turn_preserved_count)
  next
    case (Scan ops nr)
    with Cons.prems show ?thesis by (simp add: in_turn_preserved_scan)
  qed
  then show ?case using Cons.IH by simp
qed

lemma in_turn_empty: "f3fs_list st = [] \<Longrightarrow> in_turn st"
  by (simp add: in_turn_def)

lemma scans_in_turn:
  assumes "in_turn st" "f3fs_list st = xs @ ys" "k \<le> length xs"
    and "\<forall>a\<in>set (take k xs). frees_one ops (caches (sbis st a))"
  shows "acquired (new_actions st (scans ops 1 k st)) = take k xs
       \<and> f3fs_list (scans ops 1 k st) = drop k xs @ ys @ take k xs"
  using assms
proof (induction k arbitrary: st xs ys)
  case 0
  then show ?case by simp
next
  case (Suc k)
  from Suc.prems(3) obtain a xs' where xs: "xs = a # xs'" by (cases xs) auto
  let ?st = "snd (f3fs_shrink_scan ops 1 st)"
  have l: "f3fs_list st = a # (xs' @ ys)" using Suc.prems(2) by (simp add: xs)
  have a: "\<not> sbi_umount_mutex (sbis st a)" "frees_one ops (caches (sbis st a))"
    using Suc.prems(1,4) l by (simp_all add: xs in_turn_def)
  have f: "sbi_shrinker_run_no (sbis st a) \<noteq> next_run_no (shrinker_run_no st)"
    using Suc.prems(1) by (rule in_turn_fresh) (simp add: l)
  have once: "a \<notin> set (xs' @ ys)" using Suc.prems(1) l by (simp add: in_turn_def)
  note head = scan_head [OF l a(1) f a(2) once]
  have others: "sbis ?st b = sbis st b" if "b \<in> set (take k xs')" for b
  proof -
    from that have "b \<in> set xs'" by (rule in_set_takeD)
    with once have "b \<noteq> a" by auto
    then show ?thesis by (rule head(3))
  qed
  have "acquired (new_actions ?st (scans ops 1 k ?st)) = take k xs'
       \<and> f3fs_list (scans ops 1 k ?st) = drop k xs' @ (ys @ [a]) @ take k xs'"
  proof (rule Suc.IH)
    show "in_turn ?st" using Suc.prems(1) by (rule in_turn_preserved_scan)
    show "f3fs_list ?st = xs' @ ys @ [a]" using head(2) by simp
    show "k \<le> length xs'" using Suc.prems(3) by (simp add: xs)
    show "\<forall>a\<in>set (take k xs'). frees_one ops (caches (sbis ?st a))"
      using Suc.prems(4) by (simp add: xs others)
  qed
  moreover have "new_actions st (scans ops 1 (Suc k) st)
          = new_actions st ?st @ new_actions ?st (scans ops 1 k ?st)"
    by (simp add: new_actions_trans)
  ultimately show ?case by (simp add: xs head(1))
qed

subsection \<open>Running the code\<close>

lemmas run_simps = f3fs_shrink_scan_def shrink_scan_loop.simps scan_sbi_def Let_def next_run_no_eq
  new_actions_def split_beta registry0_def sbi0_def ops0_def

section \<open>The claims\<close>

text \<open>
  C7. The free-nid count reported by \<open>__count_free_nids\<close> is the number of cached free
  nids less the watermark \<open>MAX_FREE_NIDS\<close> when that difference is positive, and zero when
  the cached free nids are at or below the watermark; read as a \<open>long\<close> it is never
  negative. The watermark is a non-negative \<open>long\<close>.
\<close>

theorem count_free_nids_clamped:
  fixes M :: ulong
  assumes "unat M < 2 ^ 63"
  shows "uint (count_free_nids M sbi) =
          (if uint M < uint (nid_cnt_FREE_NID (caches sbi))
           then uint (nid_cnt_FREE_NID (caches sbi)) - uint M else 0)
       \<and> 0 \<le> sint (count_free_nids M sbi)"
proof -
  let ?n = "nid_cnt_FREE_NID (caches sbi)"
  let ?c = "(ucast ?n :: ulong) - M"
  have c: "sint ?c = uint ?n - uint M" using assms by (rule long_difference)
  show ?thesis
  proof (cases "uint M < uint ?n")
    case True
    then have pos: "0 <s ?c" by (simp add: word_sless_alt c)
    have u: "uint (ucast ?n :: ulong) = uint ?n"
      by (simp add: uint_up_ucast is_up)
    have "uint ?n - uint M \<le> uint ?n" by simp
    also have "uint ?n < 2 ^ 64" using uint_bounded [of ?n] by simp
    finally have "uint ?c = uint ?n - uint M"
      using True by (simp add: uint_word_ariths u take_bit_int_eq_self)
    with pos c True show ?thesis by (simp add: count_free_nids_def Let_def)
  next
    case False
    then have "\<not> 0 <s ?c" by (simp add: word_sless_alt c)
    with False show ?thesis by (simp add: count_free_nids_def Let_def)
  qed
qed

theorem count_free_nids_clamped_witness:
  "unat (3640 :: ulong) < 2 ^ 63
   \<and> uint (count_free_nids 3640 (sbi0\<lparr>caches := (caches sbi0)\<lparr>nid_cnt_FREE_NID := 4000\<rparr>\<rparr>)) = 360
   \<and> uint (count_free_nids 3640 sbi0) = 0"
  using count_free_nids_clamped [of 3640 "sbi0\<lparr>caches := (caches sbi0)\<lparr>nid_cnt_FREE_NID := 4000\<rparr>\<rparr>"]
    count_free_nids_clamped [of 3640 sbi0]
  by (simp add: sbi0_def)

text \<open>
  C5. \<open>f3fs_shrink_count\<close> returns the sum, over the file systems whose mutex it took
  during the walk, of the extent cache count (zombie trees plus extent nodes), the clean
  NAT entry count and the clamped free-nid count. The mutexes taken are those of the file
  systems of the list whose mutex was free; a file system whose mutex was held is passed
  with the one failed trylock, which does not wait, and adds nothing. The sum is that of
  the \<open>unsigned long\<close> counter; while it stays below \<open>2 ^ 64\<close> it is the sum of the
  numbers.
\<close>

theorem shrink_count_sums_acquired:
  "fst (f3fs_shrink_count M st) =
     sum_list (map (\<lambda>a. count_extent_cache (sbis st a) + count_nat_entries (sbis st a)
                          + count_free_nids M (sbis st a))
                 (acquired (new_actions st (snd (f3fs_shrink_count M st)))))
   \<and> acquired (new_actions st (snd (f3fs_shrink_count M st)))
        = filter (\<lambda>a. \<not> sbi_umount_mutex (sbis st a)) (f3fs_list st)
   \<and> refused (new_actions st (snd (f3fs_shrink_count M st)))
        = filter (\<lambda>a. sbi_umount_mutex (sbis st a)) (f3fs_list st)
   \<and> new_actions st (snd (f3fs_shrink_count M st)) =
       Spin_lock # concat (map (\<lambda>a. if sbi_umount_mutex (sbis st a) then [Mutex_trylock a False]
                      else [Mutex_trylock a True, Spin_unlock, Spin_lock, Mutex_unlock a]) (f3fs_list st))
       @ [Spin_unlock]
   \<and> (sum_list (map (\<lambda>a. unat (count_extent_cache (sbis st a) + count_nat_entries (sbis st a)
                                  + count_free_nids M (sbis st a)))
                 (acquired (new_actions st (snd (f3fs_shrink_count M st))))) < 2 ^ 64
        \<longrightarrow> unat (fst (f3fs_shrink_count M st)) =
            sum_list (map (\<lambda>a. unat (count_extent_cache (sbis st a) + count_nat_entries (sbis st a)
                                  + count_free_nids M (sbis st a)))
                 (acquired (new_actions st (snd (f3fs_shrink_count M st))))))"
  by (simp add: shrink_count_trace acquired_count_visits refused_count_visits shrink_count_value
      unat_sum_list)

theorem shrink_count_sums_acquired_witness:
  "sum_list (map (\<lambda>a. unat (count_extent_cache (sbi0 :: unit f3fs_sb_info) + count_nat_entries sbi0
                              + count_free_nids 3 sbi0)) [0::addr]) < 2 ^ 64
   \<and> unat (fst (f3fs_shrink_count 3
        (registry0 [0, 1] 0 (\<lambda>a. if a = 1 then sbi0\<lparr>sbi_umount_mutex := True\<rparr> else sbi0)))) = 11
   \<and> acquired (new_actions
        (registry0 [0, 1] 0 (\<lambda>a. if a = 1 then sbi0\<lparr>sbi_umount_mutex := True\<rparr> else sbi0))
        (snd (f3fs_shrink_count 3
          (registry0 [0, 1] 0 (\<lambda>a. if a = 1 then sbi0\<lparr>sbi_umount_mutex := True\<rparr> else sbi0)))))
       = [0]
   \<and> refused (new_actions
        (registry0 [0, 1] 0 (\<lambda>a. if a = 1 then sbi0\<lparr>sbi_umount_mutex := True\<rparr> else sbi0))
        (snd (f3fs_shrink_count 3
          (registry0 [0, 1] 0 (\<lambda>a. if a = 1 then sbi0\<lparr>sbi_umount_mutex := True\<rparr> else sbi0)))))
       = [1]"
  using shrink_count_sums_acquired [of 3
      "registry0 [0, 1] 0 (\<lambda>a. if a = 1 then sbi0\<lparr>sbi_umount_mutex := True\<rparr> else sbi0)"]
  by (simp add: shrink_count_trace shrink_count_value registry0_def sbi0_def count_extent_cache_def
      count_nat_entries_def count_free_nids_def word_sless_alt)

text \<open>
  C10. \<open>f3fs_shrink_count\<close> leaves the registry as it found it: the list with its order,
  the run counter and every file system (its run number, its caches, and its mutex, which
  is released again when it was taken) are the same after the call. The log shows the
  mutex of each file system that was free taken and released once.
\<close>

theorem shrink_count_frame:
  "f3fs_list (snd (f3fs_shrink_count M st)) = f3fs_list st
   \<and> shrinker_run_no (snd (f3fs_shrink_count M st)) = shrinker_run_no st
   \<and> sbis (snd (f3fs_shrink_count M st)) = sbis st
   \<and> new_actions st (snd (f3fs_shrink_count M st)) =
       Spin_lock # concat (map (\<lambda>a. if sbi_umount_mutex (sbis st a) then [Mutex_trylock a False]
                      else [Mutex_trylock a True, Spin_unlock, Spin_lock, Mutex_unlock a]) (f3fs_list st))
       @ [Spin_unlock]"
proof -
  have "f3fs_list (snd (f3fs_shrink_count M st)) = f3fs_list st
     \<and> shrinker_run_no (snd (f3fs_shrink_count M st)) = shrinker_run_no st
     \<and> sbis (snd (f3fs_shrink_count M st)) = sbis st"
    by (simp add: f3fs_shrink_count_def Let_def count_loop_frame)
  then show ?thesis by (simp add: shrink_count_trace)
qed

text \<open>
  C1. In the log of every \<open>f3fs_shrink_scan\<close>, each file system whose mutex was taken
  gets the three tiers in order: first a request to its extent cache for \<open>nr div 2\<close>
  objects, whatever the total freed so far; then, only while the total freed is below
  \<open>nr\<close>, a request to its NAT cache for \<open>nr - freed\<close>; then, only while the total is
  still below \<open>nr\<close>, a request to its free-nid cache for \<open>nr - freed\<close>. What each
  request returns is added to the one total, which is carried from file system to file
  system and is the value the scan returns.
\<close>

theorem scan_follows_tiers:
  "tiers_conform nr (new_actions st (snd (f3fs_shrink_scan ops nr st)))
     = Some (fst (f3fs_shrink_scan ops nr st))"
proof -
  let ?st2 = "(spin_lock st)\<lparr>shrinker_run_no := next_run_no (shrinker_run_no st)\<rparr>"
  let ?r = "shrink_scan_loop ops (next_run_no (shrinker_run_no st)) nr (f3fs_list st) 0 ?st2"
  have "tiers_from nr Idle 0 (new_actions ?st2 (snd ?r) @ [Spin_unlock])
          = tiers_from nr Idle (fst ?r) [Spin_unlock]"
    by (rule tiers_from_append) (rule scan_loop_tiers)
  then show ?thesis
    by (simp add: tiers_conform_from shrink_scan_actions shrink_scan_freed Let_def tiers_from_skip)
qed

text \<open>
  C2, for a target of at least one. Once the total freed has reached \<open>nr\<close> the scan takes
  no further step of the walk (no trylock) and makes no further request to a cache: every
  trylock and every request in the log happens while the total freed before it is below
  \<open>nr\<close>. The total itself may end above \<open>nr\<close>.
\<close>

theorem scan_budget_respected:
  "nr \<noteq> 0 \<Longrightarrow> budget_respected nr 0 (new_actions st (snd (f3fs_shrink_scan ops nr st)))"
  using scan_loop_budget [of 0 nr]
  by (simp add: shrink_scan_actions Let_def budget_append word_neq_0_conv)

theorem scan_budget_respected_witness:
  "(1::ulong) \<noteq> 0
   \<and> budget_respected 1 0 (new_actions (registry0 [0, 1] 0 (\<lambda>_. sbi0))
         (snd (f3fs_shrink_scan ops0 1 (registry0 [0, 1] 0 (\<lambda>_. sbi0)))))"
  using scan_budget_respected [of 1 "registry0 [0, 1] 0 (\<lambda>_. sbi0)" ops0]
  by simp

text \<open>
  C2 as it is stated fails for the target zero: the total freed, zero, has reached the
  target before the walk begins, and the scan still takes the mutex of the first file
  system and asks its extent cache for zero objects.
\<close>

theorem scan_budget_zero_target_counterexample:
  "new_actions (registry0 [0] 0 (\<lambda>_. sbi0)) (snd (f3fs_shrink_scan ops0 0 (registry0 [0] 0 (\<lambda>_. sbi0))))
     = [Spin_lock, Mutex_trylock 0 True, Spin_unlock, Shrink_extent_tree 0 0 0, Spin_lock,
        List_move_tail 0, Mutex_unlock 0, Spin_unlock]
   \<and> \<not> budget_respected 0 0 (new_actions (registry0 [0] 0 (\<lambda>_. sbi0))
         (snd (f3fs_shrink_scan ops0 0 (registry0 [0] 0 (\<lambda>_. sbi0)))))"
  by (simp add: run_simps)

text \<open>
  C4, with what a match of the run number means made exact. \<open>f3fs_shrink_scan\<close> is a
  total function: the walk is defined by a recursion that ends for every list, every
  pattern of held mutexes and every target, and a scan tries the mutex of at most as many
  file systems as the list holds. When the list holds each file system once, the file
  systems tried are, in the order of the list, a first part of those in front of the
  first one that carried the number of the run when the scan began: the walk stops at
  such a file system and tries nothing behind it. When the scan returns less than its
  target, it has tried every file system in front of that one. A match therefore tells
  that the whole list has been walked only when no file system carried the number of the
  run at the start: then a scan that stays below its target has tried every file system
  of the list, once and in order.
\<close>

theorem scan_walk_bounded:
  "length (tried (new_actions st (snd (f3fs_shrink_scan ops nr st)))) \<le> length (f3fs_list st)
   \<and> (distinct (f3fs_list st) \<longrightarrow>
        tried (new_actions st (snd (f3fs_shrink_scan ops nr st)))
           = take (length (tried (new_actions st (snd (f3fs_shrink_scan ops nr st)))))
               (takeWhile (\<lambda>b. sbi_shrinker_run_no (sbis st b) \<noteq> next_run_no (shrinker_run_no st))
                  (f3fs_list st))
        \<and> (fst (f3fs_shrink_scan ops nr st) < nr
            \<longrightarrow> tried (new_actions st (snd (f3fs_shrink_scan ops nr st)))
                = takeWhile (\<lambda>b. sbi_shrinker_run_no (sbis st b) \<noteq> next_run_no (shrinker_run_no st))
                    (f3fs_list st)))
   \<and> (distinct (f3fs_list st)
        \<and> (\<forall>b\<in>set (f3fs_list st). sbi_shrinker_run_no (sbis st b) \<noteq> next_run_no (shrinker_run_no st))
        \<and> fst (f3fs_shrink_scan ops nr st) < nr
       \<longrightarrow> tried (new_actions st (snd (f3fs_shrink_scan ops nr st))) = f3fs_list st)"
proof -
  let ?st2 = "(spin_lock st)\<lparr>shrinker_run_no := next_run_no (shrinker_run_no st)\<rparr>"
  let ?r = "next_run_no (shrinker_run_no st)"
  have "length (filter is_trylock (new_actions ?st2 (snd (shrink_scan_loop ops ?r nr (f3fs_list st) 0 ?st2))))
      \<le> length (filter (\<lambda>b. sbi_shrinker_run_no (sbis ?st2 b) \<noteq> ?r) (f3fs_list st))"
    by (rule scan_loop_steps)
  also have "\<dots> \<le> length (f3fs_list st)" by (rule length_filter_le)
  finally have bound: "length (tried (new_actions st (snd (f3fs_shrink_scan ops nr st))))
      \<le> length (f3fs_list st)"
    by (simp add: shrink_scan_actions Let_def tried_length)
  have all: "takeWhile (\<lambda>b. sbi_shrinker_run_no (sbis st b) \<noteq> ?r) (f3fs_list st) = f3fs_list st"
    if "\<forall>b\<in>set (f3fs_list st). sbi_shrinker_run_no (sbis st b) \<noteq> ?r"
    using that by (simp add: takeWhile_eq_all_conv)
  show ?thesis using bound shrink_scan_cycle [of st ops nr] all by metis
qed

theorem scan_walk_bounded_witness:
  "distinct (f3fs_list (registry0 [0, 1] 0 (\<lambda>_. sbi0)))
   \<and> sbi_shrinker_run_no (sbis (registry0 [0, 1] 0 (\<lambda>_. sbi0)) 0)
        \<noteq> next_run_no (shrinker_run_no (registry0 [0, 1] 0 (\<lambda>_. sbi0)))
   \<and> sbi_shrinker_run_no (sbis (registry0 [0, 1] 0 (\<lambda>_. sbi0)) 1)
        \<noteq> next_run_no (shrinker_run_no (registry0 [0, 1] 0 (\<lambda>_. sbi0)))
   \<and> fst (f3fs_shrink_scan ops_empty 5 (registry0 [0, 1] 0 (\<lambda>_. sbi0))) < 5
   \<and> tried (new_actions (registry0 [0, 1] 0 (\<lambda>_. sbi0))
        (snd (f3fs_shrink_scan ops_empty 5 (registry0 [0, 1] 0 (\<lambda>_. sbi0))))) = [0, 1]
   \<and> length (tried (new_actions (registry0 [0, 1] 0 (\<lambda>_. sbi0))
        (snd (f3fs_shrink_scan ops_empty 5 (registry0 [0, 1] 0 (\<lambda>_. sbi0))))))
        \<le> length (f3fs_list (registry0 [0, 1] 0 (\<lambda>_. sbi0)))
   \<and> new_actions (registry0 [0, 1] 0 (\<lambda>_. sbi0))
        (snd (f3fs_shrink_scan ops_empty 5 (registry0 [0, 1] 0 (\<lambda>_. sbi0))))
       = [Spin_lock,
          Mutex_trylock 0 True, Spin_unlock, Shrink_extent_tree 0 2 0, Try_to_free_nats 0 5 0,
          Try_to_free_nids 0 5 0, Spin_lock, List_move_tail 0, Mutex_unlock 0,
          Mutex_trylock 1 True, Spin_unlock, Shrink_extent_tree 1 2 0, Try_to_free_nats 1 5 0,
          Try_to_free_nids 1 5 0, Spin_lock, List_move_tail 1, Mutex_unlock 1,
          Spin_unlock]"
proof -
  let ?s = "registry0 [0, 1] 0 (\<lambda>_. sbi0)"
  have e: "new_actions ?s (snd (f3fs_shrink_scan ops_empty 5 ?s))
       = [Spin_lock,
          Mutex_trylock 0 True, Spin_unlock, Shrink_extent_tree 0 2 0, Try_to_free_nats 0 5 0,
          Try_to_free_nids 0 5 0, Spin_lock, List_move_tail 0, Mutex_unlock 0,
          Mutex_trylock 1 True, Spin_unlock, Shrink_extent_tree 1 2 0, Try_to_free_nats 1 5 0,
          Try_to_free_nids 1 5 0, Spin_lock, List_move_tail 1, Mutex_unlock 1,
          Spin_unlock]"
    by (simp add: run_simps ops_empty_def drop_bit_eq_div)
  have f: "fst (f3fs_shrink_scan ops_empty 5 ?s) < 5"
    using scan_loop_returned [of 0 "(spin_lock ?s)\<lparr>shrinker_run_no := next_run_no (shrinker_run_no ?s)\<rparr>"
        ops_empty "next_run_no (shrinker_run_no ?s)" 5 "f3fs_list ?s"]
      e [unfolded shrink_scan_actions Let_def]
    by (simp add: shrink_scan_freed)
  have h: "distinct (f3fs_list ?s)
      \<and> (\<forall>b\<in>set (f3fs_list ?s). sbi_shrinker_run_no (sbis ?s b) \<noteq> next_run_no (shrinker_run_no ?s))"
    by (simp add: registry0_def sbi0_def next_run_no_eq)
  with f scan_walk_bounded [of ?s ops_empty 5]
  have "tried (new_actions ?s (snd (f3fs_shrink_scan ops_empty 5 ?s))) = f3fs_list ?s"
    by blast
  then have "tried (new_actions ?s (snd (f3fs_shrink_scan ops_empty 5 ?s))) = [0, 1]"
    by (simp add: registry0_def)
  with e f h show ?thesis by (simp add: registry0_def sbi0_def next_run_no_eq)
qed

text \<open>
  C4 as it is stated fails where it reads a match of the run number as a full cycle. A
  scan skips a file system whose mutex is held without changing its run number, so a
  number can outlive its run, and the 32-bit counter draws it again after \<open>2^32 - 1\<close>
  scans. With three file systems whose mutexes are free and whose caches free nothing, the
  counter at \<open>2^32 - 1\<close> and the second file system carrying run number 1, a scan for 5
  objects has run number 1: it serves the first file system, stops at the second, returns
  0 and never tries the third.
\<close>

theorem scan_walk_stale_marker_counterexample:
  "f3fs_list (registry0 [0, 1, 2] (- 1) (\<lambda>b. if b = 1 then sbi0\<lparr>sbi_shrinker_run_no := 1\<rparr> else sbi0))
     = [0, 1, 2]
   \<and> \<not> sbi_umount_mutex (sbis (registry0 [0, 1, 2] (- 1)
         (\<lambda>b. if b = 1 then sbi0\<lparr>sbi_shrinker_run_no := 1\<rparr> else sbi0)) 2)
   \<and> new_actions (registry0 [0, 1, 2] (- 1) (\<lambda>b. if b = 1 then sbi0\<lparr>sbi_shrinker_run_no := 1\<rparr> else sbi0))
        (snd (f3fs_shrink_scan ops_empty 5
           (registry0 [0, 1, 2] (- 1) (\<lambda>b. if b = 1 then sbi0\<lparr>sbi_shrinker_run_no := 1\<rparr> else sbi0))))
       = [Spin_lock,
          Mutex_trylock 0 True, Spin_unlock, Shrink_extent_tree 0 2 0, Try_to_free_nats 0 5 0,
          Try_to_free_nids 0 5 0, Spin_lock, List_move_tail 0, Mutex_unlock 0,
          Spin_unlock]
   \<and> tried (new_actions (registry0 [0, 1, 2] (- 1) (\<lambda>b. if b = 1 then sbi0\<lparr>sbi_shrinker_run_no := 1\<rparr> else sbi0))
        (snd (f3fs_shrink_scan ops_empty 5
           (registry0 [0, 1, 2] (- 1) (\<lambda>b. if b = 1 then sbi0\<lparr>sbi_shrinker_run_no := 1\<rparr> else sbi0)))))
       = [0]
   \<and> fst (f3fs_shrink_scan ops_empty 5
           (registry0 [0, 1, 2] (- 1) (\<lambda>b. if b = 1 then sbi0\<lparr>sbi_shrinker_run_no := 1\<rparr> else sbi0)))
       = 0"
  by (simp add: run_simps ops_empty_def drop_bit_eq_div)

text \<open>
  C6. \<open>f3fs_leave_shrinker\<close> first makes one request to the extent cache of the file
  system, before the list lock is taken; the number of objects it asks for is the whole
  current count of that cache, the number of zombie trees plus the number of extent nodes
  (the sum is an \<open>int\<close>, and is that number as long as it stays below \<open>2^31\<close>), and
  the caches are left as that request leaves them. Then it takes the lock, unlinks the
  file system and drops the lock. The other file systems keep their order. Afterwards the
  file system is not in the list, and neither \<open>f3fs_shrink_count\<close> nor
  \<open>f3fs_shrink_scan\<close> touches it.
\<close>

theorem leave_drains_and_unlinks:
  "new_actions st (f3fs_leave_shrinker ops a st) =
     [Shrink_extent_tree a
        (scast (total_zombie_tree (caches (sbis st a)) + total_ext_node (caches (sbis st a))))
        (fst (f3fs_shrink_extent_tree ops (caches (sbis st a))
           (scast (total_zombie_tree (caches (sbis st a)) + total_ext_node (caches (sbis st a)))))),
      Spin_lock, List_del_init a, Spin_unlock]
   \<and> (unat (total_zombie_tree (caches (sbis st a))) + unat (total_ext_node (caches (sbis st a))) < 2 ^ 31
        \<longrightarrow> unat (scast (total_zombie_tree (caches (sbis st a)) + total_ext_node (caches (sbis st a))) :: ulong)
            = unat (total_zombie_tree (caches (sbis st a))) + unat (total_ext_node (caches (sbis st a))))
   \<and> caches (sbis (f3fs_leave_shrinker ops a st) a)
        = snd (f3fs_shrink_extent_tree ops (caches (sbis st a))
           (scast (total_zombie_tree (caches (sbis st a)) + total_ext_node (caches (sbis st a)))))
   \<and> f3fs_list (f3fs_leave_shrinker ops a st) = removeAll a (f3fs_list st)
   \<and> a \<notin> set (f3fs_list (f3fs_leave_shrinker ops a st))
   \<and> \<not> visits a (new_actions (f3fs_leave_shrinker ops a st)
                    (snd (f3fs_shrink_count M (f3fs_leave_shrinker ops a st))))
   \<and> \<not> visits a (new_actions (f3fs_leave_shrinker ops a st)
                    (snd (f3fs_shrink_scan ops' nr (f3fs_leave_shrinker ops a st))))"
proof -
  let ?st = "f3fs_leave_shrinker ops a st"
  let ?n = "scast (total_zombie_tree (caches (sbis st a)) + total_ext_node (caches (sbis st a))) :: ulong"
  have n: "count_extent_cache (sbis st a) = ?n"
    by (simp add: count_extent_cache_def)
  have l: "f3fs_list ?st = removeAll a (f3fs_list st)"
    by (simp add: f3fs_leave_shrinker_def Let_def)
  have t: "new_actions st ?st =
     [Shrink_extent_tree a ?n (fst (f3fs_shrink_extent_tree ops (caches (sbis st a)) ?n)),
      Spin_lock, List_del_init a, Spin_unlock]"
    by (rule new_actionsI) (simp add: f3fs_leave_shrinker_def Let_def n)
  have u: "unat ?n = unat (total_zombie_tree (caches (sbis st a))) + unat (total_ext_node (caches (sbis st a)))"
    if "unat (total_zombie_tree (caches (sbis st a))) + unat (total_ext_node (caches (sbis st a))) < 2 ^ 31"
    using count_extent_cache_sum [OF that] by (simp only: n)
  have k: "caches (sbis ?st a) = snd (f3fs_shrink_extent_tree ops (caches (sbis st a)) ?n)"
    by (simp add: f3fs_leave_shrinker_def Let_def n)
  have c: "\<not> visits a (new_actions ?st (snd (f3fs_shrink_count M ?st)))"
    using count_visits [of a _ "f3fs_list ?st"] by (auto simp: shrink_count_trace l)
  have s: "\<not> visits a (new_actions ?st (snd (f3fs_shrink_scan ops' nr ?st)))"
    using scan_loop_visits [of a _ ops' _ nr "f3fs_list ?st" 0] by (auto simp: shrink_scan_actions Let_def l)
  from l t u k c s show ?thesis by simp
qed

theorem leave_drains_and_unlinks_witness:
  "unat (total_zombie_tree (caches (sbis (registry0 [0, 1] 0 (\<lambda>_. sbi0)) 0)))
     + unat (total_ext_node (caches (sbis (registry0 [0, 1] 0 (\<lambda>_. sbi0)) 0))) < 2 ^ 31
   \<and> new_actions (registry0 [0, 1] 0 (\<lambda>_. sbi0))
        (f3fs_leave_shrinker ops0 0 (registry0 [0, 1] 0 (\<lambda>_. sbi0)))
       = [Shrink_extent_tree 0 5 5, Spin_lock, List_del_init 0, Spin_unlock]
   \<and> f3fs_list (f3fs_leave_shrinker ops0 0 (registry0 [0, 1] 0 (\<lambda>_. sbi0))) = [1]
   \<and> new_actions (f3fs_leave_shrinker ops0 0 (registry0 [0, 1] 0 (\<lambda>_. sbi0)))
        (snd (f3fs_shrink_count 3 (f3fs_leave_shrinker ops0 0 (registry0 [0, 1] 0 (\<lambda>_. sbi0)))))
       = [Spin_lock, Mutex_trylock 1 True, Spin_unlock, Spin_lock, Mutex_unlock 1, Spin_unlock]"
  using leave_drains_and_unlinks [of "registry0 [0, 1] 0 (\<lambda>_. sbi0)" ops0 0]
  by (simp add: registry0_def sbi0_def ops0_def shrink_count_trace f3fs_leave_shrinker_def Let_def)

text \<open>
  C8. Every scan takes as its run number the run counter incremented once, and once more
  when the increment gave zero (the counter is 32 bits wide and wraps); the counter keeps
  that number. The run number is never zero, every file system the scan serves carries it
  afterwards, and as long as the counter does not wrap the run number is greater than the
  counter was: the next scan gets a greater number than this one.
\<close>

theorem scan_run_no:
  "shrinker_run_no (snd (f3fs_shrink_scan ops nr st)) = next_run_no (shrinker_run_no st)
   \<and> next_run_no c = (if c + 1 = 0 then c + 1 + 1 else c + 1)
   \<and> next_run_no c \<noteq> 0
   \<and> (\<forall>a \<in> set (acquired (new_actions st (snd (f3fs_shrink_scan ops nr st)))).
         sbi_shrinker_run_no (sbis (snd (f3fs_shrink_scan ops nr st)) a)
           = next_run_no (shrinker_run_no st))
   \<and> (c \<noteq> - 1 \<longrightarrow> c < next_run_no c)
   \<and> (shrinker_run_no (snd (f3fs_shrink_scan ops nr st)) \<noteq> - 1 \<longrightarrow>
        shrinker_run_no (snd (f3fs_shrink_scan ops nr st))
          < shrinker_run_no (snd (f3fs_shrink_scan ops' nr' (snd (f3fs_shrink_scan ops nr st)))))"
proof -
  let ?st2 = "(spin_lock st)\<lparr>shrinker_run_no := next_run_no (shrinker_run_no st)\<rparr>"
  let ?r = "next_run_no (shrinker_run_no st)"
  have eq: "next_run_no c = (if c + 1 = 0 then c + 1 + 1 else c + 1)"
    by (auto simp: next_run_no_eq add_eq_0_iff2)
  have stamps: "\<forall>a \<in> set (acquired (new_actions st (snd (f3fs_shrink_scan ops nr st)))).
         sbi_shrinker_run_no (sbis (snd (f3fs_shrink_scan ops nr st)) a) = ?r"
  proof
    fix a assume "a \<in> set (acquired (new_actions st (snd (f3fs_shrink_scan ops nr st))))"
    then have "a \<in> set (acquired (new_actions ?st2 (snd (shrink_scan_loop ops ?r nr (f3fs_list st) 0 ?st2))))"
      by (simp add: shrink_scan_actions Let_def)
    then have "sbi_shrinker_run_no (sbis (snd (shrink_scan_loop ops ?r nr (f3fs_list st) 0 ?st2)) a) = ?r"
      by (rule scan_loop_stamps)
    then show "sbi_shrinker_run_no (sbis (snd (f3fs_shrink_scan ops nr st)) a) = ?r"
      by (simp add: f3fs_shrink_scan_def Let_def)
  qed
  show ?thesis
    using eq stamps next_run_no_less [of c]
      next_run_no_less [of "shrinker_run_no (snd (f3fs_shrink_scan ops nr st))"]
    by (simp only: shrink_scan_counter next_run_no_nonzero) simp
qed

theorem scan_run_no_witness:
  "0 \<in> set (acquired (new_actions (registry0 [0] 0 (\<lambda>_. sbi0))
              (snd (f3fs_shrink_scan ops0 1 (registry0 [0] 0 (\<lambda>_. sbi0))))))
   \<and> sbi_shrinker_run_no (sbis (snd (f3fs_shrink_scan ops0 1 (registry0 [0] 0 (\<lambda>_. sbi0)))) 0) = 1
   \<and> (5::uint) \<noteq> - 1 \<and> (5::uint) < next_run_no 5
   \<and> shrinker_run_no (snd (f3fs_shrink_scan ops0 1 (registry0 [0] 0 (\<lambda>_. sbi0)))) \<noteq> - 1
   \<and> shrinker_run_no (snd (f3fs_shrink_scan ops0 1 (registry0 [0] 0 (\<lambda>_. sbi0))))
       < shrinker_run_no (snd (f3fs_shrink_scan ops0 1
           (snd (f3fs_shrink_scan ops0 1 (registry0 [0] 0 (\<lambda>_. sbi0))))))"
  using scan_run_no [of ops0 1 "registry0 [0] 0 (\<lambda>_. sbi0)" 5 ops0 1]
  by (simp add: run_simps)

text \<open>
  C9, for a list whose nodes up to the first free one do not carry the number of the new
  run. With the target zero and the list \<open>pre @ a # rest\<close>, where the mutexes of \<open>pre\<close>
  are held and that of \<open>a\<close> is free, the scan is not a no-op: it passes \<open>pre\<close> with one
  failed trylock each, takes the mutex of \<open>a\<close>, asks its extent cache for zero objects,
  gives \<open>a\<close> the number of the run, moves it to the tail of the list, and stops; no
  other cache is asked and no node of \<open>rest\<close> is tried.
\<close>

theorem scan_zero_target:
  assumes l: "f3fs_list st = pre @ a # rest"
    and held: "\<forall>b\<in>set pre. sbi_umount_mutex (sbis st b)"
    and free: "\<not> sbi_umount_mutex (sbis st a)"
    and stale: "\<forall>b\<in>set (pre @ [a]). sbi_shrinker_run_no (sbis st b) \<noteq> next_run_no (shrinker_run_no st)"
    and once: "a \<notin> set pre" "a \<notin> set rest"
  shows "new_actions st (snd (f3fs_shrink_scan ops 0 st)) =
           Spin_lock # map (\<lambda>b. Mutex_trylock b False) pre @
           [Mutex_trylock a True, Spin_unlock,
            Shrink_extent_tree a 0 (fst (f3fs_shrink_extent_tree ops (caches (sbis st a)) 0)),
            Spin_lock, List_move_tail a, Mutex_unlock a, Spin_unlock]
       \<and> fst (f3fs_shrink_scan ops 0 st) = fst (f3fs_shrink_extent_tree ops (caches (sbis st a)) 0)
       \<and> sbi_shrinker_run_no (sbis (snd (f3fs_shrink_scan ops 0 st)) a)
            = next_run_no (shrinker_run_no st)
       \<and> f3fs_list (snd (f3fs_shrink_scan ops 0 st)) = pre @ rest @ [a]"
proof -
  let ?r = "next_run_no (shrinker_run_no st)"
  let ?st2 = "(spin_lock st)\<lparr>shrinker_run_no := ?r\<rparr>"
  let ?st3 = "?st2\<lparr>trace := trace ?st2 @ map (\<lambda>b. Mutex_trylock b False) pre\<rparr>"
  let ?x = "scan_sbi ops ?r 0 a 0 (snd (mutex_trylock a ?st3))"
  have "shrink_scan_loop ops ?r 0 (f3fs_list st) 0 ?st2 = shrink_scan_loop ops ?r 0 (a # rest) 0 ?st3"
    unfolding l using held stale by (intro scan_loop_held_prefix) simp
  also have "\<dots> = ?x"
    using free stale by (intro scan_loop_Done) simp_all
  finally have loop: "shrink_scan_loop ops ?r 0 (f3fs_list st) 0 ?st2 = ?x" .
  have scan: "f3fs_shrink_scan ops 0 st = (fst ?x, spin_unlock (snd ?x))"
    using loop by (simp add: f3fs_shrink_scan_def Let_def)
  have "trace (snd ?x) = trace (snd (mutex_trylock a ?st3)) @ new_actions (snd (mutex_trylock a ?st3)) (snd ?x)"
    by (rule extends_trace) simp
  then have t: "trace (spin_unlock (snd ?x)) = trace st @
           Spin_lock # map (\<lambda>b. Mutex_trylock b False) pre @
           [Mutex_trylock a True, Spin_unlock,
            Shrink_extent_tree a 0 (fst (f3fs_shrink_extent_tree ops (caches (sbis st a)) 0)),
            Spin_lock, List_move_tail a, Mutex_unlock a, Spin_unlock]"
    using free by (simp add: scan_sbi_zero)
  have f: "fst ?x = fst (f3fs_shrink_extent_tree ops (caches (sbis st a)) 0)"
    by (simp add: scan_sbi_zero)
  have m: "sbi_shrinker_run_no (sbis (spin_unlock (snd ?x)) a) = ?r"
    by simp
  have "f3fs_list (spin_unlock (snd ?x)) = removeAll a (pre @ a # rest) @ [a]"
    by (simp add: l)
  also have "\<dots> = pre @ rest @ [a]" using once by simp
  finally show ?thesis using t f m by (simp add: scan new_actionsI)
qed

theorem scan_zero_target_witness:
  "f3fs_list (registry0 [0, 1, 2] 0 (\<lambda>b. if b = 0 then sbi0\<lparr>sbi_umount_mutex := True\<rparr> else sbi0))
     = [0] @ 1 # [2]
   \<and> sbi_umount_mutex (sbis (registry0 [0, 1, 2] 0
         (\<lambda>b. if b = 0 then sbi0\<lparr>sbi_umount_mutex := True\<rparr> else sbi0)) 0)
   \<and> \<not> sbi_umount_mutex (sbis (registry0 [0, 1, 2] 0
         (\<lambda>b. if b = 0 then sbi0\<lparr>sbi_umount_mutex := True\<rparr> else sbi0)) 1)
   \<and> new_actions (registry0 [0, 1, 2] 0 (\<lambda>b. if b = 0 then sbi0\<lparr>sbi_umount_mutex := True\<rparr> else sbi0))
        (snd (f3fs_shrink_scan ops0 0
           (registry0 [0, 1, 2] 0 (\<lambda>b. if b = 0 then sbi0\<lparr>sbi_umount_mutex := True\<rparr> else sbi0))))
       = [Spin_lock, Mutex_trylock 0 False, Mutex_trylock 1 True, Spin_unlock,
          Shrink_extent_tree 1 0 0, Spin_lock, List_move_tail 1, Mutex_unlock 1, Spin_unlock]
   \<and> f3fs_list (snd (f3fs_shrink_scan ops0 0
           (registry0 [0, 1, 2] 0 (\<lambda>b. if b = 0 then sbi0\<lparr>sbi_umount_mutex := True\<rparr> else sbi0))))
       = [0, 2, 1]"
  using scan_zero_target [of
      "registry0 [0, 1, 2] 0 (\<lambda>b. if b = 0 then sbi0\<lparr>sbi_umount_mutex := True\<rparr> else sbi0)"
      "[0]" 1 "[2]" ops0]
  by (simp add: registry0_def sbi0_def ops0_def next_run_no_eq)

text \<open>
  C9 as it is stated fails when the first node carries, from a scan \<open>2 ^ 32 - 1\<close> runs
  ago, the number that the new run draws: the list is not empty and the mutex of its first
  node is free, and the scan with the target zero stops at that node without a trylock,
  without a request to a cache and without moving a node.
\<close>

theorem scan_zero_target_counterexample:
  "f3fs_list (registry0 [0, 1] (- 1) (\<lambda>b. if b = 0 then sbi0\<lparr>sbi_shrinker_run_no := 1\<rparr> else sbi0))
     = [0, 1]
   \<and> \<not> sbi_umount_mutex (sbis (registry0 [0, 1] (- 1)
         (\<lambda>b. if b = 0 then sbi0\<lparr>sbi_shrinker_run_no := 1\<rparr> else sbi0)) 0)
   \<and> new_actions (registry0 [0, 1] (- 1) (\<lambda>b. if b = 0 then sbi0\<lparr>sbi_shrinker_run_no := 1\<rparr> else sbi0))
        (snd (f3fs_shrink_scan ops0 0
           (registry0 [0, 1] (- 1) (\<lambda>b. if b = 0 then sbi0\<lparr>sbi_shrinker_run_no := 1\<rparr> else sbi0))))
       = [Spin_lock, Spin_unlock]
   \<and> f3fs_list (snd (f3fs_shrink_scan ops0 0
           (registry0 [0, 1] (- 1) (\<lambda>b. if b = 0 then sbi0\<lparr>sbi_shrinker_run_no := 1\<rparr> else sbi0))))
       = [0, 1]"
  by (simp add: run_simps)

text \<open>
  C3. In every scan, each file system served is moved to the tail of the list after its
  mutex was taken and before its mutex is released, and the list after the scan is the
  list before it with the file systems served moved to the tail one after the other.
  Consequently, take any registry reached from an empty list by a quiet history of joins,
  leaves, counts and scans (no mutex ever held by another party; each file system joins
  with run number 0, the list shorter than \<open>2^32 - 1\<close>; the scans of the history with
  any targets and caches) in which every file system frees at least one object in a scan
  for one object. Then \<open>k\<close> scans for one object, \<open>k\<close> at most the length of the list,
  serve the first \<open>k\<close> file systems of the list, each once and in the order of the list,
  and leave them at the tail: as many scans as there are file systems serve every one of
  them before any is served twice.
\<close>

theorem scan_round_robin:
  "filter gate_or_move (new_actions st (snd (f3fs_shrink_scan ops nr st)))
     = concat (map (\<lambda>a. [Mutex_trylock a True, List_move_tail a, Mutex_unlock a])
         (acquired (new_actions st (snd (f3fs_shrink_scan ops nr st)))))
   \<and> f3fs_list (snd (f3fs_shrink_scan ops nr st))
     = foldl (\<lambda>l a. removeAll a l @ [a]) (f3fs_list st)
         (acquired (new_actions st (snd (f3fs_shrink_scan ops nr st))))
   \<and> (f3fs_list init = [] \<and> quiet h init \<and> k \<le> length (f3fs_list (run_events h init))
       \<and> (\<forall>a\<in>set (f3fs_list (run_events h init)). frees_one ops (caches (sbis (run_events h init) a)))
      \<longrightarrow> acquired (new_actions (run_events h init) (scans ops 1 k (run_events h init)))
            = take k (f3fs_list (run_events h init))
          \<and> f3fs_list (scans ops 1 k (run_events h init))
            = drop k (f3fs_list (run_events h init)) @ take k (f3fs_list (run_events h init)))"
proof -
  let ?s = "run_events h init"
  have g: "filter gate_or_move (new_actions st (snd (f3fs_shrink_scan ops nr st)))
     = concat (map (\<lambda>a. [Mutex_trylock a True, List_move_tail a, Mutex_unlock a])
         (acquired (new_actions st (snd (f3fs_shrink_scan ops nr st)))))"
    by (simp add: shrink_scan_actions Let_def scan_loop_gate)
  have r: "acquired (new_actions ?s (scans ops 1 k ?s)) = take k (f3fs_list ?s)
          \<and> f3fs_list (scans ops 1 k ?s) = drop k (f3fs_list ?s) @ take k (f3fs_list ?s)"
    if "f3fs_list init = []" "quiet h init" "k \<le> length (f3fs_list ?s)"
       "\<forall>a\<in>set (f3fs_list ?s). frees_one ops (caches (sbis ?s a))"
  proof -
    from that(1) have "in_turn init" by (rule in_turn_empty)
    with that(2) have "in_turn ?s" by (rule in_turn_history)
    from scans_in_turn [OF this, of "f3fs_list ?s" "[]" k ops] that(3,4)
    show ?thesis by (auto dest: in_set_takeD)
  qed
  from g shrink_scan_list [of ops nr st] r show ?thesis by blast
qed

theorem scan_round_robin_witness:
  "f3fs_list (registry0 [] 0 (\<lambda>_. sbi0)) = []
   \<and> quiet [Join 0, Join 1, Scan ops0 1, Join 2, Count 3, Leave ops0 1] (registry0 [] 0 (\<lambda>_. sbi0))
   \<and> f3fs_list (run_events [Join 0, Join 1, Scan ops0 1, Join 2, Count 3, Leave ops0 1] (registry0 [] 0 (\<lambda>_. sbi0))) = [0, 2]
   \<and> frees_one ops0 (caches (sbis (run_events [Join 0, Join 1, Scan ops0 1, Join 2, Count 3, Leave ops0 1] (registry0 [] 0 (\<lambda>_. sbi0))) 0))
   \<and> frees_one ops0 (caches (sbis (run_events [Join 0, Join 1, Scan ops0 1, Join 2, Count 3, Leave ops0 1] (registry0 [] 0 (\<lambda>_. sbi0))) 2))
   \<and> acquired (new_actions (run_events [Join 0, Join 1, Scan ops0 1, Join 2, Count 3, Leave ops0 1] (registry0 [] 0 (\<lambda>_. sbi0)))
         (scans ops0 1 2 (run_events [Join 0, Join 1, Scan ops0 1, Join 2, Count 3, Leave ops0 1] (registry0 [] 0 (\<lambda>_. sbi0))))) = [0, 2]
   \<and> f3fs_list (scans ops0 1 2 (run_events [Join 0, Join 1, Scan ops0 1, Join 2, Count 3, Leave ops0 1] (registry0 [] 0 (\<lambda>_. sbi0)))) = [0, 2]"
proof -
  let ?i = "registry0 [] 0 (\<lambda>_. sbi0) :: unit shrinker"
  let ?h = "[Join 0, Join 1, Scan ops0 1, Join 2, Count 3, Leave ops0 1] :: unit event list"
  let ?s = "run_events ?h ?i"
  have e: "f3fs_list ?i = []" by (simp add: registry0_def)
  have q: "quiet ?h ?i"
    by (simp add: run_simps f3fs_join_shrinker_def f3fs_leave_shrinker_def
        f3fs_shrink_count_def drop_bit_eq_div)
  have l: "f3fs_list ?s = [0, 2]"
    by (simp add: run_simps f3fs_join_shrinker_def f3fs_leave_shrinker_def
        f3fs_shrink_count_def drop_bit_eq_div)
  have f: "frees_one ops0 c" for c :: "unit f3fs_caches"
    by (simp add: frees_one_def ops0_def)
  from scan_round_robin [where ops = ops0 and k = 2 and h = ?h and init = ?i] e q l f
  have "acquired (new_actions ?s (scans ops0 1 2 ?s)) = take 2 (f3fs_list ?s)
      \<and> f3fs_list (scans ops0 1 2 ?s) = drop 2 (f3fs_list ?s) @ take 2 (f3fs_list ?s)"
    by simp
  then show ?thesis using e q l f by simp
qed

end
